theory Spec2Isabelle
  imports Main "HOL-Library.Sublist"
begin

section \<open>Strings and characters\<close>

text \<open>
  The texts of the export and of the HTML bodies are modelled as \<^typ>\<open>string\<close>s. A
  \<^typ>\<open>char\<close> stands for the code point of the same number, so these texts are over the
  code points 0 to 255 (ASCII and Latin-1). The character functions below follow Python on
  that range: \<open>str.isspace\<close> and the class \<open>\s\<close> of \<open>re\<close>, the class \<open>\w\<close> of \<open>re\<close> on a
  \<open>str\<close> pattern (alphanumeric or underscore), and \<open>str.lower\<close>, which is also the case
  mapping of \<open>re.IGNORECASE\<close> there. The patterns, their matcher and the file names of
  the later sections are over characters of any type.
\<close>

definition code :: "char \<Rightarrow> int" where
  "code c = of_char c"

definition is_space :: "char \<Rightarrow> bool" where
  "is_space c = (let n = code c in
     (9 \<le> n \<and> n \<le> 13) \<or> (28 \<le> n \<and> n \<le> 32) \<or> n = 133 \<or> n = 160)"

definition is_word :: "char \<Rightarrow> bool" where
  "is_word c = (let n = code c in
     (48 \<le> n \<and> n \<le> 57) \<or> (65 \<le> n \<and> n \<le> 90) \<or> n = 95 \<or> (97 \<le> n \<and> n \<le> 122)
     \<or> n = 170 \<or> n = 178 \<or> n = 179 \<or> n = 181 \<or> n = 185 \<or> n = 186
     \<or> (188 \<le> n \<and> n \<le> 190) \<or> (192 \<le> n \<and> n \<le> 214) \<or> (216 \<le> n \<and> n \<le> 246)
     \<or> 248 \<le> n)"

definition is_upper :: "char \<Rightarrow> bool" where
  "is_upper c = (let n = code c in
     (65 \<le> n \<and> n \<le> 90) \<or> (192 \<le> n \<and> n \<le> 214) \<or> (216 \<le> n \<and> n \<le> 222))"

definition lower_char :: "char \<Rightarrow> char" where
  "lower_char c = (if is_upper c then char_of (code c + 32) else c)"

definition lower :: "string \<Rightarrow> string" where
  "lower s = map lower_char s"

text \<open>
  A literal of a pattern under \<open>re.IGNORECASE\<close> at the start of a string: character by
  character, each pair equal up to case; \<open>f\<close> is the case mapping of the characters.
\<close>

fun prefix_ci :: "('c \<Rightarrow> 'c) \<Rightarrow> 'c list \<Rightarrow> 'c list \<Rightarrow> bool" where
  "prefix_ci f [] s = True"
| "prefix_ci f (p # ps) [] = False"
| "prefix_ci f (p # ps) (c # cs) = (if f p = f c then prefix_ci f ps cs else False)"

section \<open>The element tree\<close>

text \<open>
  \<open>ET.parse(xml_source).getroot()\<close> gives the root \<open>Element\<close> of the document; the
  model starts from that tree. An element has its tag (a plain name, or \<open>{uri}name\<close> for a
  name in a namespace), its attributes, its text (\<open>None\<close> for an element without
  character data) and its children in document order.
\<close>

datatype element =
  Element (tag: string) (attrib: "(string \<times> string) list")
          (elem_text: "string option") (children: "element list")

text \<open>\<open>root.iter()\<close>: the element itself and all its descendants, in document order.\<close>

fun iter :: "element \<Rightarrow> element list" where
  "iter (Element t a x cs) = Element t a x cs # concat (map iter cs)"

definition descendants :: "element \<Rightarrow> element list" where
  "descendants e = concat (map iter (children e))"

text \<open>\<open>e.find('.//t')\<close> and \<open>e.findall('.//t')\<close>: the descendants of \<open>e\<close> with tag \<open>t\<close>.\<close>

definition find_desc :: "string \<Rightarrow> element \<Rightarrow> element option" where
  "find_desc t e = List.find (\<lambda>x. tag x = t) (descendants e)"

definition findall_desc :: "string \<Rightarrow> element \<Rightarrow> element list" where
  "findall_desc t e = filter (\<lambda>x. tag x = t) (descendants e)"

text \<open>\<open>e.find('t')\<close> and \<open>e.findall('t')\<close>: the children of \<open>e\<close> with tag \<open>t\<close>.\<close>

definition find_child :: "string \<Rightarrow> element \<Rightarrow> element option" where
  "find_child t e = List.find (\<lambda>x. tag x = t) (children e)"

definition findall_child :: "string \<Rightarrow> element \<Rightarrow> element list" where
  "findall_child t e = filter (\<lambda>x. tag x = t) (children e)"

text \<open>The tag \<open>{uri}name\<close>, as the f-strings of the source build it.\<close>

definition qname :: "string \<Rightarrow> string \<Rightarrow> string" where
  "qname uri name = ''{'' @ uri @ ''}'' @ name"

section \<open>Namespace detection\<close>

record namespaces =
  wp :: string
  content_ns :: string
  dc :: string

definition export_family :: string where
  "export_family = ''wordpress.org/export''"

definition known_versions :: "string list" where
  "known_versions = [''1.2'', ''1.1'', ''1.0'']"

definition version_uri :: "string \<Rightarrow> string" where
  "version_uri ver = ''http://wordpress.org/export/'' @ ver @ ''/''"

definition default_wp_ns :: string where
  "default_wp_ns = ''http://wordpress.org/export/1.2/''"

definition content_uri :: string where
  "content_uri = ''http://purl.org/rss/1.0/modules/content/''"

definition dc_uri :: string where
  "dc_uri = ''http://purl.org/dc/elements/1.1/''"

text \<open>
  The loop over \<open>root.iter()\<close>: \<open>elem.tag.split('}')[0].lstrip('{')\<close> is the tag up to its
  first closing brace, without its leading opening braces. The loop leaves \<open>wp_ns\<close> empty
  when it does not break.
\<close>

fun walk_tree :: "element list \<Rightarrow> string" where
  "walk_tree [] = []"
| "walk_tree (elem # rest) =
     (if prefix ''{'' (tag elem) then
        (let ns_uri = dropWhile (\<lambda>c. c = CHR ''{'') (takeWhile (\<lambda>c. c \<noteq> CHR ''}'') (tag elem))
         in if sublist export_family ns_uri then ns_uri else walk_tree rest)
      else walk_tree rest)"

text \<open>The loop over the three version strings, with its \<open>break\<close>.\<close>

fun probe_versions :: "element \<Rightarrow> string list \<Rightarrow> string" where
  "probe_versions root [] = []"
| "probe_versions root (ver # rest) =
     (let candidate = version_uri ver
      in if find_desc (qname candidate ''post_type'') root \<noteq> None then candidate
         else probe_versions root rest)"

text \<open>
  The first loop of the source, over \<open>root.attrib\<close>, has no effect (its body is a
  \<open>continue\<close>) and \<open>ns_map\<close> is never read.
\<close>

definition detect_wp_namespace :: "element \<Rightarrow> namespaces" where
  "detect_wp_namespace root =
     (let wp_ns = walk_tree (iter root);
          wp_ns = (if wp_ns = [] then probe_versions root known_versions else wp_ns);
          wp_ns = (if wp_ns = [] then default_wp_ns else wp_ns)
      in \<lparr> wp = wp_ns, content_ns = content_uri, dc = dc_uri \<rparr>)"

section \<open>Reading the export\<close>

text \<open>
  A post dict. The values of \<open>content\<close>, \<open>date\<close> and \<open>slug\<close> are the \<open>text\<close> of an
  element, which Python gives as \<open>None\<close> or a \<open>str\<close>: they are options here.
\<close>

record post =
  title :: string
  content :: "string option"
  date :: "string option"
  slug :: "string option"
  ptype :: string
  status :: string
  categories :: "string list"
  tags :: "string list"

text \<open>\<open>el.text if el is not None and el.text else d\<close>\<close>

definition text_or :: "string \<Rightarrow> element option \<Rightarrow> string" where
  "text_or d el = (case el of None \<Rightarrow> d
     | Some e \<Rightarrow> (case elem_text e of None \<Rightarrow> d | Some t \<Rightarrow> if t = [] then d else t))"

text \<open>\<open>el.text if el is not None else ''\<close>\<close>

definition text_if_present :: "element option \<Rightarrow> string option" where
  "text_if_present el = (case el of None \<Rightarrow> Some [] | Some e \<Rightarrow> elem_text e)"

text \<open>\<open>cat.attrib.get('domain', '')\<close> and \<open>cat.text or ''\<close>\<close>

definition domain_of :: "element \<Rightarrow> string" where
  "domain_of cat = (case map_of (attrib cat) ''domain'' of None \<Rightarrow> [] | Some d \<Rightarrow> d)"

definition cat_text :: "element \<Rightarrow> string" where
  "cat_text cat = (case elem_text cat of None \<Rightarrow> [] | Some t \<Rightarrow> t)"

text \<open>The loop over \<open>item.findall('category')\<close>, on the pair of the two lists.\<close>

fun collect_categories :: "element list \<Rightarrow> string list \<times> string list \<Rightarrow> string list \<times> string list" where
  "collect_categories [] (cs, ts) = (cs, ts)"
| "collect_categories (cat # rest) (cs, ts) =
     (if domain_of cat = ''category'' then collect_categories rest (cs @ [cat_text cat], ts)
      else if domain_of cat = ''post_tag'' then collect_categories rest (cs, ts @ [cat_text cat])
      else collect_categories rest (cs, ts))"

definition item_ptype :: "namespaces \<Rightarrow> element \<Rightarrow> string" where
  "item_ptype ns item = text_or ''post'' (find_child (qname (wp ns) ''post_type'') item)"

definition item_status :: "namespaces \<Rightarrow> element \<Rightarrow> string" where
  "item_status ns item = text_or [] (find_child (qname (wp ns) ''status'') item)"

definition make_post :: "namespaces \<Rightarrow> element \<Rightarrow> post" where
  "make_post ns item =
     (let title_el = find_child ''title'' item;
          content_el = find_child (qname (content_ns ns) ''encoded'') item;
          date_el = find_child (qname (wp ns) ''post_date'') item;
          slug_el = find_child (qname (wp ns) ''post_name'') item;
          (cs, ts) = collect_categories (findall_child ''category'' item) ([], [])
      in \<lparr> title = text_or ''Untitled'' title_el,
           content = text_if_present content_el,
           date = text_if_present date_el,
           slug = text_if_present slug_el,
           ptype = item_ptype ns item,
           status = item_status ns item,
           categories = cs,
           tags = ts \<rparr>)"

text \<open>
  The loop over \<open>root.findall('.//item')\<close>, on the list \<open>posts\<close>. A filter is \<open>None\<close> or a
  set of strings; an item that fails a filter is skipped (\<open>continue\<close>).
\<close>

fun parse_items ::
  "namespaces \<Rightarrow> string set option \<Rightarrow> string set option \<Rightarrow> element list \<Rightarrow> post list \<Rightarrow> post list" where
  "parse_items ns post_types post_statuses [] posts = posts"
| "parse_items ns post_types post_statuses (item # rest) posts =
     (if post_types \<noteq> None \<and> item_ptype ns item \<notin> the post_types
      then parse_items ns post_types post_statuses rest posts
      else if post_statuses \<noteq> None \<and> item_status ns item \<notin> the post_statuses
      then parse_items ns post_types post_statuses rest posts
      else parse_items ns post_types post_statuses rest (posts @ [make_post ns item]))"

definition parse_wordpress_xml ::
  "element \<Rightarrow> string set option \<Rightarrow> string set option \<Rightarrow> post list" where
  "parse_wordpress_xml root post_types post_statuses =
     parse_items (detect_wp_namespace root) post_types post_statuses (findall_desc ''item'' root) []"


section \<open>Regular expressions\<close>

text \<open>
  The patterns of the program are sequences of literals, single characters of a class,
  greedy repetitions of a class (\<open>c*\<close>, \<open>c+\<close>, \<open>c{3,}\<close>), the lazy \<open>.*?\<close> (always under
  \<open>re.DOTALL\<close>, so that it takes any character) and an optional character \<open>c?\<close>. Every
  group of the patterns encloses exactly one such item.
\<close>

datatype 'c item =
    Lit "'c list"
  | LitI "'c \<Rightarrow> 'c" "'c list"
  | One "'c \<Rightarrow> bool"
  | Rep nat "'c \<Rightarrow> bool"
  | Lazy
  | Opt 'c

text \<open>
  A match is the list of the texts its items took, and the rest of the string. The two
  functions below put a text in front of a match, and a character in front of its first
  text.
\<close>

fun add_part :: "'c list \<Rightarrow> ('c list list \<times> 'c list) option \<Rightarrow> ('c list list \<times> 'c list) option" where
  "add_part p None = None"
| "add_part p (Some (ps, r)) = Some (p # ps, r)"

fun push_char :: "'c \<Rightarrow> ('c list list \<times> 'c list) option \<Rightarrow> ('c list list \<times> 'c list) option" where
  "push_char c (Some (p # ps, r)) = Some ((c # p) # ps, r)"
| "push_char c m = None"

text \<open>
  \<open>rmatch re s\<close> matches the pattern at the start of \<open>s\<close> as Python's backtracking
  matcher does: a greedy item tries its longest text first, the lazy one its shortest, and
  the first way that lets the rest of the pattern match is the match. \<open>LitI f\<close> is a
  literal under \<open>re.IGNORECASE\<close> with the case mapping \<open>f\<close>; \<open>Rep n c\<close> is \<open>c{n,}\<close>.
\<close>

fun rmatch :: "'c item list \<Rightarrow> 'c list \<Rightarrow> ('c list list \<times> 'c list) option" where
  "rmatch [] s = Some ([], s)"
| "rmatch (Lit p # re) s =
     (if prefix p s then add_part p (rmatch re (drop (length p) s)) else None)"
| "rmatch (LitI f p # re) s =
     (if prefix_ci f p s
      then add_part (take (length p) s) (rmatch re (drop (length p) s)) else None)"
| "rmatch (One P # re) [] = None"
| "rmatch (One P # re) (c # cs) = (if P c then add_part [c] (rmatch re cs) else None)"
| "rmatch (Rep (Suc n) P # re) [] = None"
| "rmatch (Rep (Suc n) P # re) (c # cs) =
     (if P c then push_char c (rmatch (Rep n P # re) cs) else None)"
| "rmatch (Rep 0 P # re) [] = add_part [] (rmatch re [])"
| "rmatch (Rep 0 P # re) (c # cs) =
     (if P c then
        (case push_char c (rmatch (Rep 0 P # re) cs) of
           Some m \<Rightarrow> Some m
         | None \<Rightarrow> add_part [] (rmatch re (c # cs)))
      else add_part [] (rmatch re (c # cs)))"
| "rmatch (Lazy # re) [] = add_part [] (rmatch re [])"
| "rmatch (Lazy # re) (c # cs) =
     (case add_part [] (rmatch re (c # cs)) of
        Some m \<Rightarrow> Some m
      | None \<Rightarrow> push_char c (rmatch (Lazy # re) cs))"
| "rmatch (Opt x # re) [] = add_part [] (rmatch re [])"
| "rmatch (Opt x # re) (c # cs) =
     (if c = x then
        (case add_part [c] (rmatch re cs) of
           Some m \<Rightarrow> Some m
         | None \<Rightarrow> add_part [] (rmatch re (c # cs)))
      else add_part [] (rmatch re (c # cs)))"

text \<open>
  \<open>re.sub\<close> and \<open>re.findall\<close> go through the string from left to right: where the pattern
  matches, the match is taken and the search goes on after it; elsewhere the character is
  kept. No pattern of the program matches the empty string, so a match always takes at
  least one character.
\<close>

datatype 'c token = Ch 'c | Match "'c list list"

fun scan :: "'c item list \<Rightarrow> 'c list \<Rightarrow> 'c token list" where
  "scan re [] = []"
| "scan re (c # cs) =
     (case rmatch re (c # cs) of
        None \<Rightarrow> Ch c # scan re cs
      | Some (ps, r) \<Rightarrow>
          if length r < length (c # cs) then Match ps # scan re r else Ch c # scan re cs)"

fun emit :: "('c list list \<Rightarrow> 'c list) \<Rightarrow> 'c token \<Rightarrow> 'c list" where
  "emit repl (Ch c) = [c]"
| "emit repl (Match ps) = repl ps"

definition re_sub :: "'c item list \<Rightarrow> ('c list list \<Rightarrow> 'c list) \<Rightarrow> 'c list \<Rightarrow> 'c list" where
  "re_sub re repl s = concat (map (emit repl) (scan re s))"

text \<open>\<open>re.findall\<close> for a pattern with one group, the item \<open>g\<close> of the pattern.\<close>

fun group_of :: "nat \<Rightarrow> 'c token \<Rightarrow> 'c list list" where
  "group_of g (Ch c) = []"
| "group_of g (Match ps) = [ps ! g]"

definition re_findall :: "'c item list \<Rightarrow> nat \<Rightarrow> 'c list \<Rightarrow> 'c list list" where
  "re_findall re g s = concat (map (group_of g) (scan re s))"

section \<open>String methods\<close>

text \<open>\<open>s.replace(old, new)\<close>: the occurrences of \<open>old\<close> from left to right, not overlapping.\<close>

fun replace_from :: "string \<Rightarrow> string \<Rightarrow> string \<Rightarrow> string" where
  "replace_from old new [] = []"
| "replace_from old new (c # cs) =
     (if old \<noteq> [] \<and> prefix old (c # cs)
      then new @ replace_from old new (drop (length old) (c # cs))
      else c # replace_from old new cs)"

definition str_replace :: "string \<Rightarrow> string \<Rightarrow> string \<Rightarrow> string" where
  "str_replace old new s =
     (if old = [] then new @ concat (map (\<lambda>c. c # new) s) else replace_from old new s)"

definition strip_with :: "('c \<Rightarrow> bool) \<Rightarrow> 'c list \<Rightarrow> 'c list" where
  "strip_with P s = rev (dropWhile P (rev (dropWhile P s)))"

text \<open>\<open>s.strip()\<close>\<close>

definition strip :: "string \<Rightarrow> string" where
  "strip s = strip_with is_space s"

text \<open>\<open>sep.join(xs)\<close>\<close>

fun join :: "string \<Rightarrow> string list \<Rightarrow> string" where
  "join sep [] = []"
| "join sep [x] = x"
| "join sep (x # y # ys) = x @ sep @ join sep (y # ys)"

text \<open>\<open>str(n)\<close> for a natural number.\<close>

definition digit :: "nat \<Rightarrow> char" where
  "digit d = char_of (48 + int d)"

fun show_nat :: "nat \<Rightarrow> string" where
  "show_nat n = (if n < 10 then [digit n] else show_nat (n div 10) @ [digit (n mod 10)])"

declare show_nat.simps [simp del]

section \<open>HTML to Markdown\<close>

definition nl :: char where
  "nl = CHR 0x0A"

definition dquote :: char where
  "dquote = CHR 0x22"

definition squote :: char where
  "squote = CHR 0x27"

definition not_gt :: "char \<Rightarrow> bool" where
  "not_gt c = (c \<noteq> CHR ''>'')"

definition quote :: "char \<Rightarrow> bool" where
  "quote c = (c = dquote \<or> c = squote)"

definition not_quote :: "char \<Rightarrow> bool" where
  "not_quote c = (\<not> quote c)"

text \<open>\<open><tag[^>]*>(.*?)</tag>\<close>; the group is item 3.\<close>

definition element_re :: "string \<Rightarrow> char item list" where
  "element_re t = [Lit (''<'' @ t), Rep 0 not_gt, Lit ''>'', Lazy, Lit (''</'' @ t @ ''>'')]"

text \<open>\<open><a[^>]*href=["\']([^"\']*)["\'][^>]*>(.*?)</a>\<close>; the groups are items 4 and 8.\<close>

definition link_re :: "char item list" where
  "link_re = [Lit ''<a'', Rep 0 not_gt, Lit ''href='', One quote, Rep 0 not_quote, One quote,
              Rep 0 not_gt, Lit ''>'', Lazy, Lit ''</a>'']"

text \<open>
  \<open><img[^>]*src=["\']([^"\']*)["\'][^>]*alt=["\']([^"\']*)["\'][^>]*/?>\<close>; the groups are
  items 4 and 9.
\<close>

definition img_alt_re :: "char item list" where
  "img_alt_re = [Lit ''<img'', Rep 0 not_gt, Lit ''src='', One quote, Rep 0 not_quote, One quote,
                 Rep 0 not_gt, Lit ''alt='', One quote, Rep 0 not_quote, One quote,
                 Rep 0 not_gt, Opt (CHR ''/''), Lit ''>'']"

text \<open>\<open><img[^>]*src=["\']([^"\']*)["\'][^>]*/?>\<close>; the group is item 4.\<close>

definition img_re :: "char item list" where
  "img_re = [Lit ''<img'', Rep 0 not_gt, Lit ''src='', One quote, Rep 0 not_quote, One quote,
             Rep 0 not_gt, Opt (CHR ''/''), Lit ''>'']"

text \<open>\<open><br\s*/?>\<close>\<close>

definition br_re :: "char item list" where
  "br_re = [Lit ''<br'', Rep 0 is_space, Opt (CHR ''/''), Lit ''>'']"

text \<open>\<open><iframe[^>]*>.*?</iframe>\<close> and \<open><script[^>]*>.*?</script>\<close>, under \<open>re.IGNORECASE\<close>.\<close>

definition block_re :: "string \<Rightarrow> char item list" where
  "block_re t = [LitI lower_char (''<'' @ t), Rep 0 not_gt, Lit ''>'', Lazy,
                 LitI lower_char (''</'' @ t @ ''>'')]"

text \<open>\<open><[^>]+>\<close>\<close>

definition tag_re :: "char item list" where
  "tag_re = [Lit ''<'', Rep 1 not_gt, Lit ''>'']"

text \<open>\<open>\n{3,}\<close>\<close>

definition newlines_re :: "char item list" where
  "newlines_re = [Rep 3 (\<lambda>c. c = nl)]"

text \<open>
  \<open>html.unescape\<close> of the standard library returns a string without \<open>&\<close> as it is, and
  otherwise replaces the character references of the string. That replacement needs the
  library's table of the HTML5 entities and gives code points of any size; it is the
  parameter \<open>charrefs\<close> of the model.
\<close>

definition html_unescape :: "(string \<Rightarrow> string) \<Rightarrow> string \<Rightarrow> string" where
  "html_unescape charrefs s = (if CHR ''&'' \<in> set s then charrefs s else s)"

definition remove_cdata :: "string \<Rightarrow> string" where
  "remove_cdata s = str_replace '']]>'' [] (str_replace ''<![CDATA['' [] s)"

definition convert_heading :: "nat \<Rightarrow> string \<Rightarrow> string" where
  "convert_heading level s =
     re_sub (element_re (''h'' @ show_nat level)) (\<lambda>ps. replicate level (CHR ''#'') @ '' '' @ ps ! 3) s"

definition convert_blockquote :: "string list \<Rightarrow> string" where
  "convert_blockquote ps =
     (let inner = str_replace [nl] (nl # ''> '') (strip (ps ! 3))
      in nl # ''> '' @ inner @ [nl])"

definition list_items :: "string \<Rightarrow> string list" where
  "list_items s = re_findall (element_re ''li'') 3 s"

definition convert_ol :: "string list \<Rightarrow> string" where
  "convert_ol ps =
     (let items = list_items (ps ! 3)
      in [nl] @ join [nl] (map (\<lambda>(i, item). show_nat (i + 1) @ ''. '' @ strip item) (enumerate 0 items))
         @ [nl])"

definition convert_ul :: "string list \<Rightarrow> string" where
  "convert_ul ps =
     (let items = list_items (ps ! 3)
      in [nl] @ join [nl] (map (\<lambda>item. ''- '' @ strip item) items) @ [nl])"

text \<open>The block-level and inline rewrites, in the order of the source.\<close>

definition block_rewrites :: "string \<Rightarrow> string" where
  "block_rewrites s =
     (let content = fold convert_heading [1 ..< 7] s;
          content = re_sub (element_re ''blockquote'') convert_blockquote content;
          content = re_sub (element_re ''ol'') convert_ol content;
          content = re_sub (element_re ''ul'') convert_ul content
      in content)"

definition inline_rewrites :: "string \<Rightarrow> string" where
  "inline_rewrites s =
     (let content = re_sub (element_re ''strong'') (\<lambda>ps. ''**'' @ ps ! 3 @ ''**'') s;
          content = re_sub (element_re ''b'') (\<lambda>ps. ''**'' @ ps ! 3 @ ''**'') content;
          content = re_sub (element_re ''em'') (\<lambda>ps. ''*'' @ ps ! 3 @ ''*'') content;
          content = re_sub (element_re ''i'') (\<lambda>ps. ''*'' @ ps ! 3 @ ''*'') content;
          content = re_sub link_re (\<lambda>ps. ''['' @ ps ! 8 @ '']('' @ ps ! 4 @ '')'') content;
          content = re_sub img_alt_re (\<lambda>ps. ''!['' @ ps ! 9 @ '']('' @ ps ! 4 @ '')'') content;
          content = re_sub img_re (\<lambda>ps. ''![]('' @ ps ! 4 @ '')'') content;
          content = re_sub br_re (\<lambda>ps. [nl]) content;
          content = re_sub (element_re ''p'') (\<lambda>ps. ps ! 3 @ [nl, nl]) content
      in content)"

text \<open>
  The text as it stands before the embedded elements are saved: entities decoded, CDATA
  markers removed, block-level and inline elements rewritten.
\<close>

definition rewrite_text :: "(string \<Rightarrow> string) \<Rightarrow> string \<Rightarrow> string" where
  "rewrite_text charrefs s = inline_rewrites (block_rewrites (remove_cdata (html_unescape charrefs s)))"

text \<open>
  \<open>_save_iframe\<close> and \<open>_save_script\<close> as \<open>re.sub\<close> calls them, match after match: the
  matched text is appended to the list and the marker with its index takes its place.
\<close>

definition marker :: "string \<Rightarrow> nat \<Rightarrow> string" where
  "marker name i = ''___'' @ name @ ''_'' @ show_nat i @ ''___''"

fun save_tokens :: "string \<Rightarrow> char token list \<Rightarrow> string list \<Rightarrow> string \<times> string list" where
  "save_tokens name [] saved = ([], saved)"
| "save_tokens name (Ch c # ts) saved =
     (let (out, saved') = save_tokens name ts saved in (c # out, saved'))"
| "save_tokens name (Match ps # ts) saved =
     (let saved1 = saved @ [concat ps];
          mk = marker name (length saved1 - 1);
          (out, saved') = save_tokens name ts saved1
      in (mk @ out, saved'))"

definition save_blocks :: "string \<Rightarrow> string \<Rightarrow> string \<Rightarrow> string \<times> string list" where
  "save_blocks t name s = save_tokens name (scan (block_re t) s) []"

definition strip_tags :: "string \<Rightarrow> string" where
  "strip_tags s = re_sub tag_re (\<lambda>ps. []) s"

text \<open>The two loops that put the saved elements back.\<close>

definition restore :: "string \<Rightarrow> string list \<Rightarrow> string \<Rightarrow> string" where
  "restore name saved s =
     fold (\<lambda>(i, block) content. str_replace (marker name i) ([nl, nl] @ block @ [nl, nl]) content)
       (enumerate 0 saved) s"

definition cleanup :: "string \<Rightarrow> string" where
  "cleanup s =
     (let content = re_sub newlines_re (\<lambda>ps. [nl, nl]) s;
          content = str_replace ''&nbsp;'' '' '' content;
          content = str_replace ''&amp;'' ''&'' content;
          content = str_replace ''&quot;'' [dquote] content;
          content = str_replace ''&lt;'' ''<'' content;
          content = str_replace ''&gt;'' ''>'' content
      in strip content)"

text \<open>From the saving of the embedded elements to the end of the function.\<close>

definition preserve_and_finish :: "string \<Rightarrow> string" where
  "preserve_and_finish s =
     (let (content, iframes) = save_blocks ''iframe'' ''IFRAME'' s;
          (content, scripts) = save_blocks ''script'' ''SCRIPT'' content;
          content = strip_tags content;
          content = restore ''IFRAME'' iframes content;
          content = restore ''SCRIPT'' scripts content
      in cleanup content)"

definition html_to_markdown :: "(string \<Rightarrow> string) \<Rightarrow> string \<Rightarrow> string" where
  "html_to_markdown charrefs html_content =
     (if html_content = [] then [] else preserve_and_finish (rewrite_text charrefs html_content))"

section \<open>File names\<close>

text \<open>
  \<open>sanitize_filename\<close> works on a title of any characters. \<open>str.lower\<close> and the classes
  \<open>\w\<close> and \<open>\s\<close> of \<open>re\<close> come from the Unicode database of the interpreter: they, and
  the hyphen, are the parameters \<open>str_lower\<close>, \<open>word\<close>, \<open>space\<close> and \<open>hyphen\<close> of the model,
  whose characters are of any type, so that what is proved of it holds for code points of
  any size. On the code points 0 to 255 the parameters are \<^const>\<open>lower\<close>,
  \<^const>\<open>is_word\<close>, \<^const>\<open>is_space\<close> and \<open>CHR ''-''\<close>.
\<close>

text \<open>\<open>[^\w\s-]\<close> and \<open>[-\s]+\<close>\<close>

definition slug_char :: "('c \<Rightarrow> bool) \<Rightarrow> ('c \<Rightarrow> bool) \<Rightarrow> 'c \<Rightarrow> 'c \<Rightarrow> bool" where
  "slug_char word space hyphen c = (word c \<or> space c \<or> c = hyphen)"

definition separator :: "('c \<Rightarrow> bool) \<Rightarrow> 'c \<Rightarrow> 'c \<Rightarrow> bool" where
  "separator space hyphen c = (c = hyphen \<or> space c)"

definition sanitize_filename ::
  "('c list \<Rightarrow> 'c list) \<Rightarrow> ('c \<Rightarrow> bool) \<Rightarrow> ('c \<Rightarrow> bool) \<Rightarrow> 'c \<Rightarrow> 'c list \<Rightarrow> 'c list" where
  "sanitize_filename str_lower word space hyphen t =
     (let s = re_sub [One (\<lambda>c. \<not> slug_char word space hyphen c)] (\<lambda>ps. []) (str_lower t);
          s = re_sub [Rep 1 (separator space hyphen)] (\<lambda>ps. [hyphen]) s
      in strip_with (\<lambda>c. c = hyphen) s)"


section \<open>Notions of the specification\<close>

text \<open>A filter accepts a value when it is unrestricted or holds the value.\<close>

definition accepts :: "string set option \<Rightarrow> string \<Rightarrow> bool" where
  "accepts F v = (case F of None \<Rightarrow> True | Some A \<Rightarrow> v \<in> A)"

definition selected :: "namespaces \<Rightarrow> string set option \<Rightarrow> string set option \<Rightarrow> element \<Rightarrow> bool" where
  "selected ns T S item = (accepts T (item_ptype ns item) \<and> accepts S (item_status ns item))"

text \<open>An element that is absent, or has no text or the empty text.\<close>

definition no_text :: "element option \<Rightarrow> bool" where
  "no_text el = (case el of None \<Rightarrow> True | Some e \<Rightarrow> elem_text e = None \<or> elem_text e = Some [])"

text \<open>The namespace URI of a tag \<open>{uri}name\<close>; a tag without a namespace has none.\<close>

definition tag_uri :: "string \<Rightarrow> string option" where
  "tag_uri t = (case t of [] \<Rightarrow> None
     | c # r \<Rightarrow> if c = CHR ''{'' then Some (takeWhile (\<lambda>c. c \<noteq> CHR ''}'') r) else None)"

definition in_family :: "element \<Rightarrow> bool" where
  "in_family e = (case tag_uri (tag e) of None \<Rightarrow> False | Some u \<Rightarrow> sublist export_family u)"

definition has_post_type :: "element \<Rightarrow> string \<Rightarrow> bool" where
  "has_post_type root ver = (find_desc (qname (version_uri ver) ''post_type'') root \<noteq> None)"

text \<open>
  The three tiers in the words of the specification: the URI of the first element of the
  walk whose URI is of the export family; else the first known version under which a
  \<open>post_type\<close> element is present; else the default.
\<close>

definition three_tier :: "element \<Rightarrow> string" where
  "three_tier root =
     (case List.find in_family (iter root) of
        Some e \<Rightarrow> (case tag_uri (tag e) of Some u \<Rightarrow> u | None \<Rightarrow> [])
      | None \<Rightarrow>
          (case List.find (has_post_type root) known_versions of
             Some ver \<Rightarrow> version_uri ver
           | None \<Rightarrow> default_wp_ns))"

text \<open>
  A URI has no braces (RFC 3986 admits none); the detection of the source strips leading
  opening braces from what it reads as the URI, so only this much is asked of the tags of
  a document.
\<close>

definition uri_ok :: "element \<Rightarrow> bool" where
  "uri_ok e = (case tag_uri (tag e) of None \<Rightarrow> True | Some u \<Rightarrow> CHR ''{'' \<notin> set u)"

text \<open>A tag, as the tag-stripping pattern matches it, stands at the start of the string.\<close>

definition tag_at :: "string \<Rightarrow> bool" where
  "tag_at s = (rmatch tag_re s \<noteq> None)"


text \<open>No tag stands anywhere in the string.\<close>

fun tagless :: "string \<Rightarrow> bool" where
  "tagless [] = True"
| "tagless (c # cs) = (\<not> tag_at (c # cs) \<and> tagless cs)"


text \<open>
  The slug in the words of the specification: the title in lower case, without the
  characters that are neither word characters nor whitespace nor hyphens, each run of
  whitespace and hyphens collapsed into one hyphen, and the hyphens at both ends trimmed.
\<close>

function collapse_runs :: "('c \<Rightarrow> bool) \<Rightarrow> 'c \<Rightarrow> 'c list \<Rightarrow> 'c list" where
  "collapse_runs sep h [] = []"
| "collapse_runs sep h (c # cs) =
     (if sep c then h # collapse_runs sep h (dropWhile sep cs)
      else c # collapse_runs sep h cs)"
  by pat_completeness auto

termination collapse_runs
  by (relation "measure (\<lambda>(sep, h, s). length s)") (auto simp: less_Suc_eq_le length_dropWhile_le)

definition slug_spec ::
  "('c list \<Rightarrow> 'c list) \<Rightarrow> ('c \<Rightarrow> bool) \<Rightarrow> ('c \<Rightarrow> bool) \<Rightarrow> 'c \<Rightarrow> 'c list \<Rightarrow> 'c list" where
  "slug_spec str_lower word space hyphen t =
     strip_with (\<lambda>c. c = hyphen)
       (collapse_runs (separator space hyphen) hyphen
          (filter (slug_char word space hyphen) (str_lower t)))"

text \<open>
  The text and the two lists of saved elements as they stand when the restoration begins:
  the iframe elements are saved from the text after the rewrites, the script elements from
  what is left, and the tags are stripped from the text with the markers.
\<close>

definition saved_state :: "string \<Rightarrow> string \<times> string list \<times> string list" where
  "saved_state s =
     (let (content, iframes) = save_blocks ''iframe'' ''IFRAME'' s;
          (content, scripts) = save_blocks ''script'' ''SCRIPT'' content
      in (strip_tags content, iframes, scripts))"

text \<open>The text after the first \<open>k\<close> rounds of a restoration loop.\<close>

definition restore_upto :: "string \<Rightarrow> nat \<Rightarrow> string list \<Rightarrow> string \<Rightarrow> string" where
  "restore_upto name k saved s =
     fold (\<lambda>(i, block) content. str_replace (marker name i) ([nl, nl] @ block @ [nl, nl]) content)
       (take k (enumerate 0 saved)) s"

text \<open>
  A block that holds none of the markers in use, when \<open>n\<close> iframe elements and \<open>m\<close>
  script elements are saved; and a block in which the cleanup finds nothing to change: no
  three newlines in a row and none of the five entities it replaces.
\<close>

definition free_of_markers :: "nat \<Rightarrow> nat \<Rightarrow> string \<Rightarrow> bool" where
  "free_of_markers n m blk =
     (list_all (\<lambda>i. \<not> sublist (marker ''IFRAME'' i) blk) [0 ..< n] \<and>
      list_all (\<lambda>i. \<not> sublist (marker ''SCRIPT'' i) blk) [0 ..< m])"

definition entities :: "string list" where
  "entities = [''&nbsp;'', ''&amp;'', ''&quot;'', ''&lt;'', ''&gt;'']"

definition untouched_by_cleanup :: "string \<Rightarrow> bool" where
  "untouched_by_cleanup blk =
     (\<not> sublist [nl, nl, nl] blk \<and> list_all (\<lambda>e. \<not> sublist e blk) entities)"

text \<open>
  \<open>block_at t blk post\<close>: at the start of \<open>blk @ post\<close> the pattern of the element \<open>t\<close>
  (iframe or script) matches exactly \<open>blk\<close>. \<open>no_iframe s\<close> and \<open>no_script s\<close>: the
  pattern of the element matches nowhere in \<open>s\<close>, so that saving the elements leaves \<open>s\<close>
  as it is and saves nothing.
\<close>

definition block_at :: "string \<Rightarrow> string \<Rightarrow> string \<Rightarrow> bool" where
  "block_at t blk post =
     (case rmatch (block_re t) (blk @ post) of None \<Rightarrow> False | Some (ps, r) \<Rightarrow> r = post)"

definition no_iframe :: "string \<Rightarrow> bool" where
  "no_iframe s = (save_blocks ''iframe'' ''IFRAME'' s = (s, []))"

definition no_script :: "string \<Rightarrow> bool" where
  "no_script s = (save_blocks ''script'' ''SCRIPT'' s = (s, []))"

text \<open>
  \<open>html.unescape\<close> on a text whose only character references are \<open>&amp;\<close>: each of them
  becomes \<open>&\<close>. The closed statements about such texts take it for the parameter
  \<open>charrefs\<close>.
\<close>

definition amp_only :: "string \<Rightarrow> string" where
  "amp_only s = str_replace ''&amp;'' ''&'' s"

section \<open>Two export documents\<close>

text \<open>
  The first item of \<open>doc1\<close> has an empty title, an empty \<open>content:encoded\<close> element and no
  \<open>post_type\<close>; \<open>doc2\<close> is an export of version 1.1.
\<close>

definition doc1 :: element where
  "doc1 = Element ''rss'' [] None
     [Element ''channel'' [] None
       [Element ''item'' [] None
          [Element ''title'' [] None [],
           Element ''{http://purl.org/rss/1.0/modules/content/}encoded'' [] None [],
           Element ''{http://wordpress.org/export/1.2/}status'' [] (Some ''publish'') []],
        Element ''item'' [] None
          [Element ''title'' [] (Some ''Second'') [],
           Element ''{http://wordpress.org/export/1.2/}post_type'' [] (Some ''page'') [],
           Element ''{http://wordpress.org/export/1.2/}status'' [] (Some ''draft'') []]]]"

definition doc2 :: element where
  "doc2 = Element ''rss'' [] None
     [Element ''channel'' [] None
       [Element ''title'' [] (Some ''Blog'') [],
        Element ''{http://wordpress.org/export/1.1/}wxr_version'' [] (Some ''1.1'') [],
        Element ''item'' [] None
          [Element ''{http://wordpress.org/export/1.1/}post_type'' [] (Some ''page'') []]]]"

section \<open>The export reader\<close>

lemma parse_items_filter:
  "parse_items ns T S items posts = posts @ map (make_post ns) (filter (selected ns T S) items)"
  by (induction items arbitrary: posts) (auto simp: selected_def accepts_def split: option.splits)

lemma parse_as_filter:
  "parse_wordpress_xml root T S =
     map (make_post (detect_wp_namespace root))
       (filter (selected (detect_wp_namespace root) T S) (findall_desc ''item'' root))"
  by (simp add: parse_wordpress_xml_def parse_items_filter)

text \<open>
  C2. The records returned are those of the items of the document, in document order,
  whose type the type filter accepts and whose status the status filter accepts: an item
  has a record if and only if both filters accept it, and the order of the items is kept.
\<close>

theorem parse_filter_correct:
  "parse_wordpress_xml root T S =
     map (make_post (detect_wp_namespace root))
       (filter (selected (detect_wp_namespace root) T S) (findall_desc ''item'' root))"
proof -
  have "parse_items ns T S items [] = map (make_post ns) (filter (selected ns T S) items)"
    for ns items
    by (simp add: parse_items_filter)
  then show ?thesis by (simp add: parse_wordpress_xml_def)
qed

theorem parse_filter_correct_witness:
  "map title (parse_wordpress_xml doc1 (Some {''page''}) (Some {''draft'', ''publish''})) = [''Second'']"
proof -
  have "map title (map (make_post (detect_wp_namespace doc1))
       (filter (selected (detect_wp_namespace doc1) (Some {''page''}) (Some {''draft'', ''publish''}))
          (findall_desc ''item'' doc1))) = [''Second'']"
    by code_simp
  then show ?thesis
    using parse_filter_correct[of doc1 "Some {''page''}" "Some {''draft'', ''publish''}"] by simp
qed

text \<open>
  C7. With the empty set as type filter, or as status filter, the reader returns the
  empty list, whatever the document. The model has no failing path.
\<close>

theorem parse_empty_filter:
  "parse_wordpress_xml root (Some {}) S = [] \<and> parse_wordpress_xml root T (Some {}) = []"
  by (simp add: parse_wordpress_xml_def parse_items_filter selected_def accepts_def)

theorem parse_empty_filter_witness:
  "parse_wordpress_xml doc1 (Some {}) None = [] \<and> parse_wordpress_xml doc1 None (Some {}) = []"
  using parse_empty_filter[of doc1 None None] by simp

lemma text_or_nonempty: "d \<noteq> [] \<Longrightarrow> text_or d el \<noteq> []"
  by (auto simp: text_or_def split: option.splits)

lemma text_or_default: "no_text el \<Longrightarrow> text_or d el = d"
  by (auto simp: text_or_def no_text_def split: option.splits)

lemma title_make_post: "title (make_post ns item) = text_or ''Untitled'' (find_child ''title'' item)"
  by (simp add: make_post_def Let_def split: prod.splits)

lemma ptype_make_post: "ptype (make_post ns item) = item_ptype ns item"
  by (simp add: make_post_def Let_def split: prod.splits)

text \<open>
  C6. Every record returned has a non-empty title and a non-empty type. It is the record
  of an item of the document; when the title element of that item is absent or without
  text the title is \<open>Untitled\<close>, and when its \<open>post_type\<close> element is absent or without
  text the type is \<open>post\<close>.
\<close>

theorem title_and_type_never_empty:
  assumes "p \<in> set (parse_wordpress_xml root T S)"
  shows "title p \<noteq> [] \<and> ptype p \<noteq> [] \<and>
         (\<exists>item \<in> set (findall_desc ''item'' root).
            p = make_post (detect_wp_namespace root) item \<and>
            (no_text (find_child ''title'' item) \<longrightarrow> title p = ''Untitled'') \<and>
            (no_text (find_child (qname (wp (detect_wp_namespace root)) ''post_type'') item)
               \<longrightarrow> ptype p = ''post''))"
proof -
  from assms obtain item where item: "item \<in> set (findall_desc ''item'' root)"
    and p: "p = make_post (detect_wp_namespace root) item"
    by (auto simp: parse_as_filter)
  have "title p \<noteq> []" using p by (simp add: title_make_post text_or_nonempty)
  moreover have "ptype p \<noteq> []" using p by (simp add: ptype_make_post item_ptype_def text_or_nonempty)
  moreover have "no_text (find_child ''title'' item) \<longrightarrow> title p = ''Untitled''"
    using p by (simp add: title_make_post text_or_default)
  moreover have "no_text (find_child (qname (wp (detect_wp_namespace root)) ''post_type'') item)
               \<longrightarrow> ptype p = ''post''"
    using p by (simp add: ptype_make_post item_ptype_def text_or_default)
  ultimately show ?thesis using item p by blast
qed

theorem title_and_type_never_empty_witness:
  "hd (parse_wordpress_xml doc1 None None) \<in> set (parse_wordpress_xml doc1 None None) \<and>
   title (hd (parse_wordpress_xml doc1 None None)) \<noteq> [] \<and>
   ptype (hd (parse_wordpress_xml doc1 None None)) \<noteq> []"
proof -
  have h: "hd (parse_wordpress_xml doc1 None None) \<in> set (parse_wordpress_xml doc1 None None)"
    by code_simp
  from title_and_type_never_empty[OF h] h show ?thesis by blast
qed

text \<open>
  C9. An item of \<open>doc1\<close> has a \<open>content:encoded\<close> element without text. The content of its
  record is \<open>None\<close>, not the empty string: the source tests the element and not its text,
  as it does for the title, the type and the status.
\<close>

theorem empty_element_content_is_None:
  "map content (parse_wordpress_xml doc1 None None) = [None, Some []]"
  by code_simp

section \<open>Namespace detection is the three-tier algorithm\<close>

lemma family_nonempty: "sublist export_family u \<Longrightarrow> u \<noteq> []"
  by (auto simp: export_family_def)

lemma code_ns_uri:
  assumes "tag_uri t = Some u" "CHR ''{'' \<notin> set u"
  shows "prefix ''{'' t" "dropWhile (\<lambda>c. c = CHR ''{'') (takeWhile (\<lambda>c. c \<noteq> CHR ''}'') t) = u"
proof -
  from assms(1) obtain r where t: "t = CHR ''{'' # r" and u: "u = takeWhile (\<lambda>c. c \<noteq> CHR ''}'') r"
    by (auto simp: tag_uri_def split: list.splits if_splits)
  show "prefix ''{'' t" using t by simp
  have "dropWhile (\<lambda>c. c = CHR ''{'') u = u"
    using assms(2) by (cases u) auto
  then show "dropWhile (\<lambda>c. c = CHR ''{'') (takeWhile (\<lambda>c. c \<noteq> CHR ''}'') t) = u"
    using t u by simp
qed

lemma tag_uri_None: "tag_uri t = None \<Longrightarrow> \<not> prefix ''{'' t"
  by (auto simp: tag_uri_def split: list.splits if_splits)

lemma walk_tree_find:
  assumes "\<forall>e \<in> set es. uri_ok e"
  shows "walk_tree es =
     (case List.find in_family es of
        Some e \<Rightarrow> (case tag_uri (tag e) of Some u \<Rightarrow> u | None \<Rightarrow> [])
      | None \<Rightarrow> [])"
  using assms
proof (induction es)
  case Nil
  show ?case by simp
next
  case (Cons e es)
  show ?case
  proof (cases "tag_uri (tag e)")
    case None
    then show ?thesis using Cons by (simp add: tag_uri_None in_family_def)
  next
    case (Some u)
    with Cons.prems have "CHR ''{'' \<notin> set u" by (simp add: uri_ok_def)
    from code_ns_uri[OF Some this] Some Cons show ?thesis
      by (simp add: in_family_def)
  qed
qed

lemma walk_tree_found:
  assumes "\<forall>e \<in> set es. uri_ok e" "List.find in_family es = Some e"
  shows "walk_tree es \<noteq> []"
proof -
  from assms(2) have "in_family e" by (auto simp: find_Some_iff)
  then obtain u where "tag_uri (tag e) = Some u" "sublist export_family u"
    by (auto simp: in_family_def split: option.splits)
  then show ?thesis using walk_tree_find[OF assms(1)] assms(2) family_nonempty by simp
qed

lemma probe_versions_find:
  "probe_versions root vers =
     (case List.find (has_post_type root) vers of Some ver \<Rightarrow> version_uri ver | None \<Rightarrow> [])"
  by (induction vers) (simp_all add: has_post_type_def Let_def)

lemma version_uri_nonempty: "version_uri ver \<noteq> []"
  by (simp add: version_uri_def)

text \<open>
  C5. On a document whose namespace URIs have no opening brace, the detection returns
  the namespace of the three-tier algorithm for the export metadata, and the two fixed
  URIs for the content and the Dublin Core namespaces.
\<close>

theorem detect_three_tier:
  assumes "\<forall>e \<in> set (iter root). uri_ok e"
  shows "detect_wp_namespace root =
           \<lparr> wp = three_tier root, content_ns = content_uri, dc = dc_uri \<rparr>"
proof (cases "List.find in_family (iter root)")
  case None
  then have "walk_tree (iter root) = []" using walk_tree_find[OF assms] by simp
  then show ?thesis using None
    by (auto simp: detect_wp_namespace_def three_tier_def probe_versions_find version_uri_nonempty
        split: option.splits)
next
  case (Some e)
  from walk_tree_found[OF assms Some] walk_tree_find[OF assms] Some show ?thesis
    by (simp add: detect_wp_namespace_def three_tier_def)
qed

theorem detect_three_tier_witness:
  "list_all uri_ok (iter doc2) \<and>
   detect_wp_namespace doc2 =
     \<lparr> wp = ''http://wordpress.org/export/1.1/'', content_ns = content_uri, dc = dc_uri \<rparr>"
proof -
  have l: "list_all uri_ok (iter doc2)" by code_simp
  then have h: "\<forall>e \<in> set (iter doc2). uri_ok e" by (simp add: list_all_iff)
  have "three_tier doc2 = ''http://wordpress.org/export/1.1/''" by code_simp
  with detect_three_tier[OF h] l show ?thesis by simp
qed


section \<open>The transformer on given inputs\<close>

text \<open>
  None of the inputs of this section holds an \<open>&\<close>, so \<open>html.unescape\<close> returns them as
  they are and the parameter \<open>charrefs\<close> is never applied: the statements hold for every
  \<open>charrefs\<close>, and the closed statements of the later sections take \<^const>\<open>id\<close> for it
  on such inputs.
\<close>

text \<open>
  C3. On \<open><h2>Hello</h2><p>World <strong>bold</strong></p>\<close> the transformer returns
  \<open>## HelloWorld **bold**\<close>: the replacement of a heading ends with the heading's text,
  so the paragraph follows it on the same line, and the result is not the text with a
  blank line after the heading.
\<close>

theorem heading_runs_into_paragraph:
  "html_to_markdown charrefs ''<h2>Hello</h2><p>World <strong>bold</strong></p>''
     = ''## HelloWorld **bold**'' \<and>
   html_to_markdown charrefs ''<h2>Hello</h2><p>World <strong>bold</strong></p>''
     \<noteq> ''## Hello\<newline>\<newline>World **bold**''"
proof -
  have "html_to_markdown charrefs ''<h2>Hello</h2><p>World <strong>bold</strong></p>''
     = ''## HelloWorld **bold**''"
    by code_simp
  then show ?thesis by simp
qed

text \<open>
  C10. The body below holds the text \<open>___IFRAME_0___\<close> and, after it, one iframe element.
  Saving the element puts the same marker in its place; the restoration replaces both
  markers by the element, which stands twice in the result, and the marker that was in
  the body is gone.
\<close>

theorem marker_collision:
  "save_blocks ''iframe'' ''IFRAME''
       (rewrite_text charrefs ''a ___IFRAME_0___ b <iframe src=x></iframe> c'')
     = (''a ___IFRAME_0___ b ___IFRAME_0___ c'', [''<iframe src=x></iframe>'']) \<and>
   html_to_markdown charrefs ''a ___IFRAME_0___ b <iframe src=x></iframe> c''
     = ''a \<newline>\<newline><iframe src=x></iframe>\<newline>\<newline> b \<newline>\<newline><iframe src=x></iframe>\<newline>\<newline> c'' \<and>
   \<not> sublist ''___IFRAME_0___''
       (html_to_markdown charrefs ''a ___IFRAME_0___ b <iframe src=x></iframe> c'')"
proof -
  have 1: "rewrite_text charrefs ''a ___IFRAME_0___ b <iframe src=x></iframe> c''
      = ''a ___IFRAME_0___ b <iframe src=x></iframe> c''"
    by code_simp
  have 2: "save_blocks ''iframe'' ''IFRAME'' ''a ___IFRAME_0___ b <iframe src=x></iframe> c''
      = (''a ___IFRAME_0___ b ___IFRAME_0___ c'', [''<iframe src=x></iframe>''])"
    by code_simp
  have 3: "preserve_and_finish ''a ___IFRAME_0___ b <iframe src=x></iframe> c''
     = ''a \<newline>\<newline><iframe src=x></iframe>\<newline>\<newline> b \<newline>\<newline><iframe src=x></iframe>\<newline>\<newline> c''"
    by code_simp
  have 4: "\<not> sublist ''___IFRAME_0___''
     ''a \<newline>\<newline><iframe src=x></iframe>\<newline>\<newline> b \<newline>\<newline><iframe src=x></iframe>\<newline>\<newline> c''"
    by code_simp
  show ?thesis using 1 2 3 4 by (simp add: html_to_markdown_def)
qed


section \<open>Matches and scans\<close>

lemma add_part_Some: "add_part p m = Some (ps, r) \<longleftrightarrow> (\<exists>ps'. m = Some (ps', r) \<and> ps = p # ps')"
  by (cases m) auto

lemma add_part_None: "add_part p m = None \<longleftrightarrow> m = None"
  by (cases m) auto

lemma push_char_Some:
  "push_char c m = Some (ps, r) \<longleftrightarrow> (\<exists>p ps'. m = Some (p # ps', r) \<and> ps = (c # p) # ps')"
  by (cases "(c, m)" rule: push_char.cases) auto

lemma prefix_ci_length: "prefix_ci f p s \<Longrightarrow> length p \<le> length s"
  by (induction f p s rule: prefix_ci.induct) (auto split: if_splits)

lemma rmatch_split: "rmatch re s = Some (ps, r) \<Longrightarrow> s = concat ps @ r"
proof (induction re s arbitrary: ps r rule: rmatch.induct)
  case (2 p re s)
  then show ?case by (auto simp: add_part_Some prefix_def split: if_splits)
next
  case (3 f p re s)
  then have "drop (length p) s = concat (tl ps) @ r" "hd ps = take (length p) s" "ps \<noteq> []"
    by (auto simp: add_part_Some split: if_splits)
  then have "take (length p) s @ drop (length p) s = concat ps @ r"
    by (cases ps) auto
  then show ?case by simp
next
  case (9 P re c cs)
  then show ?case by (auto simp: add_part_Some push_char_Some split: if_splits option.splits)
next
  case (11 re c cs)
  then show ?case by (auto simp: add_part_Some push_char_Some split: if_splits option.splits)
next
  case (13 x re c cs)
  then show ?case by (auto simp: add_part_Some split: if_splits option.splits)
qed (auto simp: add_part_Some push_char_Some split: if_splits)

lemma scan_no_match:
  "(\<And>t. suffix t u \<Longrightarrow> t \<noteq> [] \<Longrightarrow> rmatch re (t @ v) = None) \<Longrightarrow> scan re (u @ v) = map Ch u @ scan re v"
proof (induction u)
  case Nil
  show ?case by simp
next
  case (Cons c u)
  have "rmatch re ((c # u) @ v) = None" using Cons.prems[of "c # u"] by simp
  moreover have "scan re (u @ v) = map Ch u @ scan re v"
    using Cons.prems by (intro Cons.IH) (auto simp: suffix_Cons)
  ultimately show ?case by simp
qed

lemma scan_match:
  assumes "rmatch re (blk @ post) = Some (ps, post)" "blk \<noteq> []"
  shows "scan re (blk @ post) = Match ps # scan re post"
proof -
  obtain c cs where "blk @ post = c # cs" "length post < length (c # cs)"
    using assms(2) by (cases blk) auto
  then show ?thesis using assms(1) by simp
qed


section \<open>Tag stripping\<close>

lemma push_char_add_part: "push_char c (add_part p m) = add_part (c # p) m"
  by (cases m) auto

lemma rep0_then_lit:
  "\<not> P x \<Longrightarrow> rmatch (Rep 0 P # Lit (x # l) # re) s
     = add_part (takeWhile P s) (rmatch (Lit (x # l) # re) (dropWhile P s))"
proof (induction s)
  case Nil
  show ?case by simp
next
  case (Cons c s)
  show ?case
  proof (cases "P c")
    case True
    with Cons.prems have "c \<noteq> x" by auto
    then have "rmatch (Lit (x # l) # re) (c # s) = None" by simp
    then show ?thesis using True Cons.IH[OF Cons.prems]
      by (simp add: push_char_add_part add_part_None split: option.splits)
  next
    case False
    then show ?thesis by simp
  qed
qed

lemma lit_progress:
  assumes "rmatch (Lit p # re) s = Some (ps, r)" "p \<noteq> []"
  shows "length r < length s"
proof -
  from assms(1) obtain ps' where "ps = p # ps'"
    by (auto simp: add_part_Some split: if_splits)
  with rmatch_split[OF assms(1)] have "s = p @ concat ps' @ r" by simp
  then have "length s = length p + length (concat ps') + length r" by simp
  then show ?thesis using assms(2) by (cases p) auto
qed

lemma gt_after: "rmatch [Lit ''>''] (dropWhile not_gt u) = None \<longleftrightarrow> CHR ''>'' \<notin> set u"
proof (cases "dropWhile not_gt u")
  case Nil
  then have "\<forall>x \<in> set u. not_gt x" by simp
  then have "CHR ''>'' \<notin> set u" unfolding not_gt_def by blast
  moreover have "rmatch [Lit ''>''] [] = None" by simp
  ultimately show ?thesis unfolding Nil by blast
next
  case (Cons a w)
  then have "\<not> not_gt a" using hd_dropWhile[of not_gt u] by auto
  then have a: "a = CHR ''>''" by (simp add: not_gt_def)
  have "a \<in> set u" using Cons set_dropWhileD[of a not_gt u] by simp
  moreover have "rmatch [Lit ''>''] (CHR ''>'' # w) \<noteq> None" by simp
  ultimately show ?thesis unfolding Cons a by blast
qed

lemma tag_at_iff:
  "tag_at s \<longleftrightarrow> (\<exists>c u. s = CHR ''<'' # c # u \<and> c \<noteq> CHR ''>'' \<and> CHR ''>'' \<in> set u)"
proof (cases s)
  case Nil
  then show ?thesis by (simp add: tag_at_def tag_re_def)
next
  case (Cons a cs)
  show ?thesis
  proof (cases cs)
    case Nil
    then show ?thesis using Cons by (simp add: tag_at_def tag_re_def add_part_None)
  next
    case (Cons c u)
    define g where "g = rmatch [Lit ''>''] (dropWhile not_gt u)"
    have g: "g = None \<longleftrightarrow> CHR ''>'' \<notin> set u"
      unfolding g_def by (rule gt_after)
    have "rmatch [Rep 0 not_gt, Lit ''>''] u = add_part (takeWhile not_gt u) g"
      unfolding g_def by (rule rep0_then_lit) (simp add: not_gt_def)
    then have "rmatch tag_re (CHR ''<'' # c # u)
        = (if c = CHR ''>'' then None else add_part ''<'' (add_part (c # takeWhile not_gt u) g))"
      by (simp add: tag_re_def push_char_add_part not_gt_def)
    then have "rmatch tag_re (CHR ''<'' # c # u) = None \<longleftrightarrow> c = CHR ''>'' \<or> CHR ''>'' \<notin> set u"
      using g by (simp add: add_part_None)
    moreover have "a \<noteq> CHR ''<'' \<Longrightarrow> rmatch tag_re s = None"
      using \<open>s = a # cs\<close> by (simp add: tag_re_def)
    ultimately show ?thesis using Cons \<open>s = a # cs\<close>
      unfolding tag_at_def by (cases "a = CHR ''<''") auto
  qed
qed

lemma not_tag_atD: "\<not> tag_at s \<Longrightarrow> rmatch tag_re s = None"
  unfolding tag_at_def by blast

lemma strip_tags_Nil: "strip_tags [] = []"
  by (simp add: strip_tags_def re_sub_def)

lemma strip_tags_Cons:
  "strip_tags (c # cs) =
     (case rmatch tag_re (c # cs) of None \<Rightarrow> c # strip_tags cs | Some (ps, r) \<Rightarrow> strip_tags r)"
proof (cases "rmatch tag_re (c # cs)")
  case None
  then show ?thesis by (simp add: strip_tags_def re_sub_def)
next
  case (Some m)
  obtain ps r where m: "m = (ps, r)" by (cases m)
  have "length r < length (c # cs)"
    using Some m lit_progress[of "''<''" _ "c # cs" ps r] by (simp add: tag_re_def)
  then show ?thesis using Some m by (simp add: strip_tags_def re_sub_def)
qed

lemma tagless_fixed: "tagless s \<Longrightarrow> strip_tags s = s"
  by (induction s) (simp_all add: strip_tags_Nil strip_tags_Cons not_tag_atD)

lemma set_strip_tags: "set (strip_tags s) \<subseteq> set s"
proof (induction s rule: length_induct)
  case (1 s)
  show ?case
  proof (cases s)
    case Nil
    then show ?thesis by (simp add: strip_tags_Nil)
  next
    case (Cons c cs)
    show ?thesis
    proof (cases "rmatch tag_re (c # cs)")
      case None
      then show ?thesis using 1 Cons by (auto simp: strip_tags_Cons)
    next
      case (Some m)
      obtain ps r where m: "m = (ps, r)" by (cases m)
      have r: "c # cs = concat ps @ r" using Some m by (simp add: rmatch_split)
      have "length r < length s"
        using Some m Cons lit_progress[of "''<''" _ "c # cs" ps r] by (simp add: tag_re_def)
      with 1 have "set (strip_tags r) \<subseteq> set r" by simp
      moreover have "set r \<subseteq> set s" using r Cons by (metis set_append sup_ge2)
      ultimately show ?thesis using Cons Some m by (auto simp: strip_tags_Cons)
    qed
  qed
qed

lemma not_tag_at_strip:
  assumes "\<not> tag_at (c # cs)"
  shows "\<not> tag_at (c # strip_tags cs)"
proof
  assume "tag_at (c # strip_tags cs)"
  then obtain d u where c: "c = CHR ''<''" and s: "strip_tags cs = d # u"
    and d: "d \<noteq> CHR ''>''" and u: "CHR ''>'' \<in> set u"
    by (auto simp: tag_at_iff)
  from s have "cs \<noteq> []" by (auto simp: strip_tags_Nil)
  then obtain e w where cs: "cs = e # w" by (cases cs) auto
  have gt: "CHR ''>'' \<in> set cs" using set_strip_tags[of cs] s u by auto
  show False
  proof (cases "e = CHR ''>''")
    case True
    then have "\<not> tag_at cs" using cs by (simp add: tag_at_iff)
    then have "rmatch tag_re (e # w) = None" using cs not_tag_atD by simp
    then have "strip_tags cs = e # strip_tags w" using cs by (simp add: strip_tags_Cons)
    then show False using s d True by simp
  next
    case False
    then have "CHR ''>'' \<in> set w" using gt cs by auto
    then have "tag_at (c # cs)" using c cs False by (simp add: tag_at_iff)
    then show False using assms by simp
  qed
qed

lemma tagless_strip_tags: "tagless (strip_tags s)"
proof (induction s rule: length_induct)
  case (1 s)
  show ?case
  proof (cases s)
    case Nil
    then show ?thesis by (simp add: strip_tags_Nil)
  next
    case (Cons c cs)
    show ?thesis
    proof (cases "rmatch tag_re (c # cs)")
      case None
      then have "\<not> tag_at (c # cs)" by (simp add: tag_at_def)
      then have "\<not> tag_at (c # strip_tags cs)" by (rule not_tag_at_strip)
      then show ?thesis using 1 Cons None by (simp add: strip_tags_Cons)
    next
      case (Some m)
      obtain ps r where m: "m = (ps, r)" by (cases m)
      have "length r < length s"
        using Some m Cons lit_progress[of "''<''" _ "c # cs" ps r] by (simp add: tag_re_def)
      then show ?thesis using 1 Cons Some m by (simp add: strip_tags_Cons)
    qed
  qed
qed


lemma strip_tags_idempotent: "strip_tags (strip_tags s) = strip_tags s"
  by (rule tagless_fixed[OF tagless_strip_tags])

section \<open>File name slugs\<close>

lemma sub_one_filter: "re_sub [One P] (\<lambda>ps. []) s = filter (\<lambda>c. \<not> P c) s"
  by (induction s) (simp_all add: re_sub_def)

lemma rep0_alone: "rmatch [Rep 0 Q] s = Some ([takeWhile Q s], dropWhile Q s)"
  by (induction s) simp_all

lemma sub_rep1_Cons:
  "re_sub [Rep (Suc 0) Q] f (c # cs) =
     (if Q c then f [c # takeWhile Q cs] @ re_sub [Rep (Suc 0) Q] f (dropWhile Q cs)
      else c # re_sub [Rep (Suc 0) Q] f cs)"
proof -
  have "length (dropWhile Q cs) < length (c # cs)"
    using length_dropWhile_le[of Q cs] by simp
  then show ?thesis by (simp add: re_sub_def rep0_alone)
qed

lemma sub_separators: "re_sub [Rep (Suc 0) sep] (\<lambda>ps. [h]) s = collapse_runs sep h s"
proof (induction sep h s rule: collapse_runs.induct)
  case (1 sep h)
  show ?case by (simp add: re_sub_def)
next
  case (2 sep h c cs)
  then show ?case by (simp add: sub_rep1_Cons)
qed

lemma sanitize_as_spec:
  "sanitize_filename str_lower word space hyphen t = slug_spec str_lower word space hyphen t"
proof -
  have "filter (\<lambda>c. \<not> \<not> slug_char word space hyphen c) (str_lower t)
      = filter (slug_char word space hyphen) (str_lower t)" by simp
  then show ?thesis
    by (simp add: sanitize_filename_def slug_spec_def sub_one_filter sub_separators)
qed

lemma collapse_runs_chars:
  "c \<in> set (collapse_runs sep h s) \<Longrightarrow> c = h \<or> (c \<in> set s \<and> \<not> sep c)"
proof (induction sep h s rule: collapse_runs.induct)
  case (1 sep h)
  then show ?case by simp
next
  case (2 sep h d ds)
  then show ?case by (auto split: if_splits dest: set_dropWhileD)
qed

lemma collapse_runs_head:
  "collapse_runs sep h s = c # r \<Longrightarrow> (\<exists>d ds. s = d # ds \<and> (if sep d then c = h else c = d))"
  by (cases s) (auto split: if_splits)

lemma collapse_runs_no_double: "sep h \<Longrightarrow> \<not> sublist [h, h] (collapse_runs sep h s)"
proof (induction sep h s rule: collapse_runs.induct)
  case (1 sep h)
  show ?case by simp
next
  case (2 sep h c cs)
  show ?case
  proof (cases "sep c")
    case True
    have "\<not> prefix [h] (collapse_runs sep h (dropWhile sep cs))"
    proof
      assume "prefix [h] (collapse_runs sep h (dropWhile sep cs))"
      then obtain r where "collapse_runs sep h (dropWhile sep cs) = h # r"
        by (auto simp: prefix_def)
      from collapse_runs_head[OF this] obtain d ds where d: "dropWhile sep cs = d # ds"
        and "if sep d then True else h = d" by (auto split: if_splits)
      then have "sep d" using "2.prems" by (auto split: if_splits)
      moreover have "\<not> sep d" using d hd_dropWhile[of sep cs] by auto
      ultimately show False by simp
    qed
    then show ?thesis using True 2 by (simp add: sublist_Cons_right)
  next
    case False
    then have "c \<noteq> h" using "2.prems" by auto
    then show ?thesis using False 2 by (simp add: sublist_Cons_right)
  qed
qed

lemma strip_with_sublist: "sublist (strip_with P s) s"
proof -
  have "suffix (dropWhile P s) s" by (rule suffix_dropWhile)
  moreover have "prefix (rev (dropWhile P (rev (dropWhile P s)))) (dropWhile P s)"
    by (metis suffix_dropWhile suffix_to_prefix rev_rev_ident)
  ultimately show ?thesis unfolding strip_with_def
    by (meson prefix_imp_sublist suffix_imp_sublist sublist_order.order_trans)
qed

lemma strip_with_ends:
  "\<not> (\<exists>c r. strip_with P s = c # r \<and> P c)" "\<not> (\<exists>c r. strip_with P s = r @ [c] \<and> P c)"
proof -
  show "\<not> (\<exists>c r. strip_with P s = r @ [c] \<and> P c)"
  proof
    assume "\<exists>c r. strip_with P s = r @ [c] \<and> P c"
    then obtain c r where e: "strip_with P s = r @ [c]" and c: "P c" by blast
    then have "dropWhile P (rev (dropWhile P s)) = c # rev r"
      by (metis strip_with_def rev_rev_ident rev.simps(2) rev_append rev_singleton_conv append_Cons append_Nil)
    then show False using c hd_dropWhile[of P "rev (dropWhile P s)"] by auto
  qed
  show "\<not> (\<exists>c r. strip_with P s = c # r \<and> P c)"
  proof
    assume "\<exists>c r. strip_with P s = c # r \<and> P c"
    then obtain c r where e: "strip_with P s = c # r" and c: "P c" by blast
    let ?d = "dropWhile P s"
    have p: "prefix (strip_with P s) ?d"
      unfolding strip_with_def by (metis suffix_dropWhile suffix_to_prefix rev_rev_ident)
    then have "?d \<noteq> []" using e by (cases ?d) auto
    then have "\<not> P (hd ?d)" using hd_dropWhile[of P s] by simp
    moreover have "hd ?d = c" using p e by (auto simp: prefix_def)
    ultimately show False using c by simp
  qed
qed


text \<open>
  C8, as amended. For every title, of characters of any kind, the slug is the title in
  lower case (as \<open>str.lower\<close> gives it), without the characters that are neither word
  characters (letters, digits and the underscore) nor whitespace nor hyphens, with each
  run of whitespace and hyphens collapsed into one hyphen and the hyphens at both ends
  trimmed. Every character of the slug is a hyphen or a word character of the title in
  lower case that is not whitespace: an underscore is kept, and so is a letter that
  \<open>str.lower\<close> leaves as it is. The slug has no two hyphens in a row and no hyphen at
  either end.
\<close>

theorem sanitize_filename_slug:
  "sanitize_filename str_lower word space hyphen t = slug_spec str_lower word space hyphen t \<and>
   (\<forall>c \<in> set (sanitize_filename str_lower word space hyphen t).
      c = hyphen \<or> (word c \<and> \<not> space c \<and> c \<in> set (str_lower t))) \<and>
   \<not> sublist [hyphen, hyphen] (sanitize_filename str_lower word space hyphen t) \<and>
   \<not> prefix [hyphen] (sanitize_filename str_lower word space hyphen t) \<and>
   \<not> suffix [hyphen] (sanitize_filename str_lower word space hyphen t)"
proof -
  let ?sep = "separator space hyphen"
  let ?f = "filter (slug_char word space hyphen) (str_lower t)"
  let ?c = "collapse_runs ?sep hyphen ?f"
  let ?r = "slug_spec str_lower word space hyphen t"
  have sub: "sublist ?r ?c" unfolding slug_spec_def by (rule strip_with_sublist)
  have chars: "c = hyphen \<or> (word c \<and> \<not> space c \<and> c \<in> set (str_lower t))" if "c \<in> set ?r" for c
  proof -
    from that sub have "c \<in> set ?c" using set_mono_sublist by blast
    then have "c = hyphen \<or> (c \<in> set ?f \<and> \<not> ?sep c)" by (rule collapse_runs_chars)
    then show ?thesis by (auto simp: slug_char_def separator_def)
  qed
  have "?sep hyphen" by (simp add: separator_def)
  then have "\<not> sublist [hyphen, hyphen] ?c" by (rule collapse_runs_no_double)
  then have nodouble: "\<not> sublist [hyphen, hyphen] ?r"
    using sub sublist_order.order_trans by blast
  have "\<not> prefix [hyphen] ?r"
    using strip_with_ends(1)[of "\<lambda>c. c = hyphen" ?c]
    by (auto simp: slug_spec_def prefix_def)
  moreover have "\<not> suffix [hyphen] ?r"
    using strip_with_ends(2)[of "\<lambda>c. c = hyphen" ?c]
    by (auto simp: slug_spec_def suffix_def)
  ultimately show ?thesis using chars nodouble by (simp add: sanitize_as_spec)
qed

theorem sanitize_filename_slug_witness:
  "sanitize_filename lower is_word is_space (CHR ''-'') ''Hello, World_1 -- x!'' = ''hello-world_1-x'' \<and>
   \<not> sublist ''--'' (sanitize_filename lower is_word is_space (CHR ''-'') ''Hello, World_1 -- x!'')"
proof -
  have "slug_spec lower is_word is_space (CHR ''-'') ''Hello, World_1 -- x!'' = ''hello-world_1-x''"
    by code_simp
  then show ?thesis
    using sanitize_filename_slug[of lower is_word is_space "CHR ''-''" "''Hello, World_1 -- x!''"]
    by metis
qed

text \<open>
  C8, as stated, fails: the underscore is a word character, so it is kept, and the slug
  of \<open>a_b\<close> holds a character that is neither a letter nor a digit nor a hyphen.
\<close>

theorem underscore_kept:
  "sanitize_filename lower is_word is_space (CHR ''-'') ''a_b'' = ''a_b'' \<and>
   CHR ''_'' \<in> set (sanitize_filename lower is_word is_space (CHR ''-'') ''a_b'')"
proof -
  have "sanitize_filename lower is_word is_space (CHR ''-'') ''a_b'' = ''a_b''" by code_simp
  then show ?thesis by simp
qed


section \<open>Embedded elements\<close>

lemma lower_char_lt: "lower_char c = CHR ''<'' \<longleftrightarrow> c = CHR ''<''"
proof (cases "is_upper c")
  case True
  then have m: "(of_char c + 32 :: int) mod 256 = of_char c + 32"
    by (auto simp: is_upper_def code_def Let_def)
  have "char_of (of_char c + 32 :: int) \<noteq> CHR ''<''"
  proof
    assume "char_of (of_char c + 32 :: int) = CHR ''<''"
    then have "(of_char (char_of (of_char c + 32 :: int)) :: int) = of_char (CHR ''<'')" by simp
    then show False using m True by (auto simp: is_upper_def code_def Let_def)
  qed
  moreover have "c \<noteq> CHR ''<''" using True by (auto simp: is_upper_def code_def Let_def)
  ultimately show ?thesis using True by (simp add: lower_char_def code_def)
next
  case False
  then show ?thesis by (simp add: lower_char_def)
qed

lemma lower_char_gt: "lower_char c = CHR ''>'' \<longleftrightarrow> c = CHR ''>''"
proof (cases "is_upper c")
  case True
  then have m: "(of_char c + 32 :: int) mod 256 = of_char c + 32"
    by (auto simp: is_upper_def code_def Let_def)
  have "char_of (of_char c + 32 :: int) \<noteq> CHR ''>''"
  proof
    assume "char_of (of_char c + 32 :: int) = CHR ''>''"
    then have "(of_char (char_of (of_char c + 32 :: int)) :: int) = of_char (CHR ''>'')" by simp
    then show False using m True by (auto simp: is_upper_def code_def Let_def)
  qed
  moreover have "c \<noteq> CHR ''>''" using True by (auto simp: is_upper_def code_def Let_def)
  ultimately show ?thesis using True by (simp add: lower_char_def code_def)
next
  case False
  then show ?thesis by (simp add: lower_char_def)
qed

lemma lower_char_lt_eq: "lower_char (CHR ''<'') = lower_char c \<longleftrightarrow> c = CHR ''<''"
proof -
  have "lower_char (CHR ''<'') = CHR ''<''" by (simp add: lower_char_lt)
  then show ?thesis using lower_char_lt[of c] by metis
qed

lemma lower_char_gt_eq: "lower_char c = lower_char (CHR ''>'') \<longleftrightarrow> c = CHR ''>''"
proof -
  have "lower_char (CHR ''>'') = CHR ''>''" by (simp add: lower_char_gt)
  then show ?thesis using lower_char_gt[of c] by metis
qed

lemma prefix_ci_map:
  "prefix_ci f p s \<Longrightarrow> map f (take (length p) s) = map f p"
  by (induction f p s rule: prefix_ci.induct) (auto split: if_splits)

lemma prefix_ci_hd_lt: "prefix_ci lower_char (CHR ''<'' # p) s \<Longrightarrow> \<exists>r. s = CHR ''<'' # r"
  by (cases s) (auto simp: lower_char_lt_eq split: if_splits)

lemma litI_Some:
  "rmatch (LitI f p # re) s = Some (ps, r) \<longleftrightarrow>
     prefix_ci f p s \<and> (\<exists>ps'. ps = take (length p) s # ps' \<and> rmatch re (drop (length p) s) = Some (ps', r))"
  by (auto simp: add_part_Some)

lemma litI_alone:
  "rmatch [LitI f q] s = Some (ps, r) \<longleftrightarrow>
     prefix_ci f q s \<and> ps = [take (length q) s] \<and> r = drop (length q) s"
  by (auto simp: add_part_Some)

lemma litI_alone_parts:
  assumes "rmatch [LitI f q] s = Some (ps, r)"
  shows "\<exists>w. ps = [w] \<and> length w = length q \<and> map f w = map f q"
proof -
  from assms have p: "prefix_ci f q s" and ps: "ps = [take (length q) s]"
    unfolding litI_alone by auto
  from prefix_ci_length[OF p] prefix_ci_map[OF p] ps show ?thesis by auto
qed

lemma lazy_then_litI:
  "rmatch [Lazy, LitI f q] s = Some (ps, r) \<Longrightarrow>
     \<exists>u w. ps = [u, w] \<and> length w = length q \<and> map f w = map f q"
proof (induction s arbitrary: ps r)
  case Nil
  then obtain ps' where "rmatch [LitI f q] [] = Some (ps', r)" "ps = [] # ps'"
    by (auto simp: add_part_Some simp del: rmatch.simps(3))
  with litI_alone_parts[of f q "[]" ps' r] show ?case by auto
next
  case (Cons c s)
  show ?case
  proof (cases "rmatch [LitI f q] (c # s)")
    case None
    then have "push_char c (rmatch [Lazy, LitI f q] s) = Some (ps, r)"
      using Cons.prems by (simp del: rmatch.simps(3))
    then obtain p ps' where m: "rmatch [Lazy, LitI f q] s = Some (p # ps', r)" and ps: "ps = (c # p) # ps'"
      by (auto simp: push_char_Some)
    from Cons.IH[OF m] ps show ?thesis by auto
  next
    case (Some m)
    obtain ps' r' where m: "m = (ps', r')" by (cases m)
    with Some Cons.prems have "ps = [] # ps'" "r = r'" by (auto simp del: rmatch.simps(3))
    with litI_alone_parts[of f q "c # s" ps' r'] Some m show ?thesis by auto
  qed
qed


text \<open>What a match of a block pattern looks like at its two ends.\<close>

lemma block_match_ends:
  assumes "rmatch (block_re t) s = Some (ps, r)"
  shows "concat ps \<noteq> []" "hd (concat ps) = CHR ''<''" "last (concat ps) = CHR ''>''"
proof -
  define q where "q = ''</'' @ t @ ''>''"
  define s1 where "s1 = drop (length (''<'' @ t)) s"
  define p1 where "p1 = take (length (''<'' @ t)) s"
  from assms obtain ps1 where pc: "prefix_ci lower_char (''<'' @ t) s" and ps: "ps = p1 # ps1"
    and m1: "rmatch (Rep 0 not_gt # Lit ''>'' # [Lazy, LitI lower_char q]) s1 = Some (ps1, r)"
    unfolding block_re_def litI_Some q_def s1_def p1_def by blast
  from pc obtain s' where s: "s = CHR ''<'' # s'" using prefix_ci_hd_lt[of t s] by auto
  have h: "p1 = CHR ''<'' # take (length t) s'" using s by (simp add: p1_def)
  have "rmatch (Rep 0 not_gt # Lit ''>'' # [Lazy, LitI lower_char q]) s1
      = add_part (takeWhile not_gt s1) (rmatch (Lit ''>'' # [Lazy, LitI lower_char q]) (dropWhile not_gt s1))"
    by (rule rep0_then_lit) (simp add: not_gt_def)
  with m1 have "add_part (takeWhile not_gt s1) (rmatch (Lit ''>'' # [Lazy, LitI lower_char q]) (dropWhile not_gt s1))
      = Some (ps1, r)" by metis
  then obtain ps2 where ps1: "ps1 = takeWhile not_gt s1 # ps2"
    and m2: "rmatch (Lit ''>'' # [Lazy, LitI lower_char q]) (dropWhile not_gt s1) = Some (ps2, r)"
    unfolding add_part_Some by blast
  from m2 obtain ps3 s3 where ps2: "ps2 = ''>'' # ps3" and m3: "rmatch [Lazy, LitI lower_char q] s3 = Some (ps3, r)"
    by (auto simp: add_part_Some simp del: rmatch.simps(3,10,11) split: if_splits)
  from lazy_then_litI[OF m3] obtain u w where ps3: "ps3 = [u, w]" and lw: "length w = length q"
    and mw: "map lower_char w = map lower_char q" by blast
  from lw have wne: "w \<noteq> []" by (auto simp: q_def)
  have "lower_char (last w) = last (map lower_char w)" using wne by (simp add: last_map)
  also have "\<dots> = last (map lower_char q)" using mw by simp
  also have "\<dots> = lower_char (CHR ''>'')" by (simp add: last_map q_def)
  finally have "last w = CHR ''>''" by (simp only: lower_char_gt_eq)
  moreover have c: "concat ps = (CHR ''<'' # take (length t) s') @ takeWhile not_gt s1 @ ''>'' @ u @ w"
    using ps ps1 ps2 ps3 h by simp
  ultimately show "last (concat ps) = CHR ''>''" using wne by simp
  show "concat ps \<noteq> []" using c by simp
  show "hd (concat ps) = CHR ''<''" using c by simp
qed


text \<open>
  Every match of a scan is a match of the pattern at some place of the text, and every
  saved element is one.
\<close>

lemma scan_Match: "Match ps \<in> set (scan re s) \<Longrightarrow> \<exists>x r. rmatch re x = Some (ps, r)"
proof (induction re s rule: scan.induct)
  case (1 re)
  then show ?case by simp
next
  case (2 re c cs)
  show ?case
  proof (cases "rmatch re (c # cs)")
    case None
    then show ?thesis using 2 by auto
  next
    case (Some m)
    obtain qs r where m: "m = (qs, r)" by (cases m)
    show ?thesis
    proof (cases "length r < length (c # cs)")
      case True
      then have "Match ps \<in> set (Match qs # scan re r)" using "2.prems" Some m by simp
      then show ?thesis using 2(2)[OF Some m[symmetric] True] Some m by auto
    next
      case False
      then have "Match ps \<in> set (scan re cs)" using "2.prems" Some m by simp
      then show ?thesis using 2(3)[OF Some m[symmetric] False] by simp
    qed
  qed
qed

lemma scan_Match_at:
  "Match ps \<in> set (scan re s) \<Longrightarrow>
     \<exists>pre post. s = pre @ concat ps @ post \<and> rmatch re (concat ps @ post) = Some (ps, post)"
proof (induction re s rule: scan.induct)
  case (1 re)
  then show ?case by simp
next
  case (2 re c cs)
  have later: "\<exists>pre post. c # cs = pre @ concat ps @ post \<and> rmatch re (concat ps @ post) = Some (ps, post)"
    if "\<exists>pre post. cs = pre @ concat ps @ post \<and> rmatch re (concat ps @ post) = Some (ps, post)"
  proof -
    from that obtain pre post where "cs = pre @ concat ps @ post"
      "rmatch re (concat ps @ post) = Some (ps, post)" by blast
    then have "c # cs = (c # pre) @ concat ps @ post \<and> rmatch re (concat ps @ post) = Some (ps, post)"
      by simp
    then show ?thesis by blast
  qed
  show ?case
  proof (cases "rmatch re (c # cs)")
    case None
    then have "Match ps \<in> set (scan re cs)" using "2.prems" by simp
    from 2(1)[OF None this] show ?thesis by (rule later)
  next
    case (Some m)
    obtain qs r where m: "m = (qs, r)" by (cases m)
    have e: "c # cs = concat qs @ r" using Some m by (simp add: rmatch_split)
    show ?thesis
    proof (cases "length r < length (c # cs)")
      case True
      then have "ps = qs \<or> Match ps \<in> set (scan re r)" using "2.prems" Some m by auto
      then show ?thesis
      proof
        assume "ps = qs"
        then have "c # cs = [] @ concat ps @ r \<and> rmatch re (concat ps @ r) = Some (ps, r)"
          using e Some m by simp
        then show ?thesis by blast
      next
        assume "Match ps \<in> set (scan re r)"
        from 2(2)[OF Some m[symmetric] True this] obtain pre post
          where "r = pre @ concat ps @ post" "rmatch re (concat ps @ post) = Some (ps, post)" by blast
        then have "c # cs = (concat qs @ pre) @ concat ps @ post \<and>
            rmatch re (concat ps @ post) = Some (ps, post)" using e by simp
        then show ?thesis by blast
      qed
    next
      case False
      then have "Match ps \<in> set (scan re cs)" using "2.prems" Some m by simp
      from 2(3)[OF Some m[symmetric] False this] show ?thesis by (rule later)
    qed
  qed
qed

lemma save_tokens_saved:
  "b \<in> set (snd (save_tokens name ts saved)) \<Longrightarrow>
     b \<in> set saved \<or> (\<exists>ps. Match ps \<in> set ts \<and> b = concat ps)"
proof (induction ts arbitrary: saved)
  case Nil
  then show ?case by simp
next
  case (Cons t ts)
  show ?case
  proof (cases t)
    case (Ch c)
    then show ?thesis using Cons by (auto simp: case_prod_beta)
  next
    case (Match qs)
    then have "b \<in> set (snd (save_tokens name ts (saved @ [concat qs])))"
      using Cons.prems by (simp add: case_prod_beta Let_def)
    from Cons.IH[OF this] show ?thesis using Match by auto
  qed
qed

lemma saved_block_ends:
  assumes "b \<in> set (snd (save_blocks t name s))"
  shows "b \<noteq> [] \<and> hd b = CHR ''<'' \<and> last b = CHR ''>''"
proof -
  from save_tokens_saved[of b name "scan (block_re t) s" "[]"] assms
  obtain ps where "Match ps \<in> set (scan (block_re t) s)" "b = concat ps"
    by (auto simp: save_blocks_def)
  with scan_Match[of ps "block_re t" s] obtain x r where "rmatch (block_re t) x = Some (ps, r)"
    by blast
  from block_match_ends[OF this] \<open>b = concat ps\<close> show ?thesis by simp
qed

lemma saved_block_at:
  assumes "b \<in> set (snd (save_blocks t name s))"
  shows "\<exists>pre post. s = pre @ b @ post \<and> block_at t b post"
proof -
  from save_tokens_saved[of b name "scan (block_re t) s" "[]"] assms
  obtain ps where "Match ps \<in> set (scan (block_re t) s)" "b = concat ps"
    by (auto simp: save_blocks_def)
  with scan_Match_at[of ps "block_re t" s] obtain pre post
    where "s = pre @ b @ post" "rmatch (block_re t) (b @ post) = Some (ps, post)" by blast
  then have "s = pre @ b @ post \<and> block_at t b post" by (simp add: block_at_def)
  then show ?thesis by blast
qed


text \<open>
  A block that begins and ends outside the characters of the matches of a pattern, and
  holds no word that every match holds, stays when the pattern is substituted.
\<close>

lemma no_match_inside:
  assumes m: "\<And>s ps r. rmatch re s = Some (ps, r) \<Longrightarrow> sublist w (concat ps) \<and> set (concat ps) \<subseteq> A"
    and blk: "last blk \<notin> A" "\<not> sublist w blk"
    and t: "suffix t blk" "t \<noteq> []"
  shows "rmatch re (t @ b) = None"
proof (cases "rmatch re (t @ b)")
  case None
  then show ?thesis .
next
  case (Some x)
  obtain ps r where x: "x = (ps, r)" by (cases x)
  define mt where "mt = concat ps"
  from m[of "t @ b" ps r] Some x have w: "sublist w mt" and a: "set mt \<subseteq> A" by (auto simp: mt_def)
  from rmatch_split[of re "t @ b" ps r] Some x have e: "t @ b = mt @ r" by (simp add: mt_def)
  show ?thesis
  proof (cases "length mt < length t")
    case True
    with e have "prefix mt t" by (metis append_eq_append_conv_if prefixI less_imp_le_nat take_is_prefix)
    then have "sublist mt blk" using t(1) by (meson prefix_imp_sublist suffix_imp_sublist sublist_order.order_trans)
    with w have "sublist w blk" using sublist_order.order_trans by blast
    with blk(2) show ?thesis by simp
  next
    case False
    with e have "prefix t mt" by (metis append_eq_append_conv_if prefixI not_less take_is_prefix)
    then have "set t \<subseteq> set mt" by (auto simp: prefix_def)
    moreover have "last t = last blk" using t by (auto simp: suffix_def)
    moreover have "last t \<in> set t" using t(2) by simp
    ultimately show ?thesis using a blk(1) by auto
  qed
qed

lemma re_sub_append_plain:
  "scan re (u @ v) = map Ch u @ scan re v \<Longrightarrow> re_sub re f (u @ v) = u @ re_sub re f v"
  by (simp add: re_sub_def comp_def)

lemma re_sub_keeps_block:
  assumes m: "\<And>s ps r. rmatch re s = Some (ps, r) \<Longrightarrow> sublist w (concat ps) \<and> set (concat ps) \<subseteq> A"
    and w: "w \<noteq> []"
    and blk: "blk \<noteq> []" "hd blk \<notin> A" "last blk \<notin> A" "\<not> sublist w blk"
  shows "\<exists>a'. re_sub re f (a @ blk @ b) = a' @ blk @ re_sub re f b"
proof (induction a rule: length_induct)
  case (1 a)
  show ?case
  proof (cases a)
    case Nil
    have "scan re (blk @ b) = map Ch blk @ scan re b"
      by (rule scan_no_match) (rule no_match_inside[OF m blk(3,4)], assumption+)
    then have "re_sub re f (blk @ b) = blk @ re_sub re f b" by (rule re_sub_append_plain)
    then show ?thesis using Nil by auto
  next
    case (Cons c cs)
    have step: "\<exists>a'. re_sub re f (cs @ blk @ b) = a' @ blk @ re_sub re f b"
      using 1 Cons by simp
    show ?thesis
    proof (cases "rmatch re (a @ blk @ b)")
      case None
      then have "re_sub re f (a @ blk @ b) = c # re_sub re f (cs @ blk @ b)"
        using Cons by (simp add: re_sub_def)
      with step show ?thesis by (metis append_Cons)
    next
      case (Some x)
      obtain ps r where x: "x = (ps, r)" by (cases x)
      define mt where "mt = concat ps"
      from m[of "a @ blk @ b" ps r] Some x have wm: "sublist w mt" and am: "set mt \<subseteq> A"
        by (auto simp: mt_def)
      from wm w have mne: "mt \<noteq> []" by auto
      from rmatch_split[of re "a @ blk @ b" ps r] Some x have e: "a @ blk @ b = mt @ r"
        by (simp add: mt_def)
      have le: "length mt \<le> length a"
      proof (rule ccontr)
        assume "\<not> length mt \<le> length a"
        then have "length a < length mt" by simp
        with e have "mt ! length a = (a @ blk @ b) ! length a"
          by (metis nth_append)
        also have "\<dots> = hd blk" using blk(1) by (simp add: nth_append hd_conv_nth)
        finally have "hd blk \<in> set mt" using \<open>length a < length mt\<close> by (metis nth_mem)
        with am blk(2) show False by auto
      qed
      then have r: "r = drop (length mt) a @ blk @ b" using e
        by (metis append_eq_conv_conj drop_append diff_is_0_eq' drop0)
      have "length r < length (a @ blk @ b)" using e mne by (metis length_append length_greater_0_conv less_add_same_cancel2 add.commute)
      then have "scan re (a @ blk @ b) = Match ps # scan re r"
        using Some x Cons by simp
      then have "re_sub re f (a @ blk @ b) = f ps @ re_sub re f r" by (simp add: re_sub_def)
      moreover have "length (drop (length mt) a) < length a" using mne Cons by simp
      then have "\<exists>a'. re_sub re f (drop (length mt) a @ blk @ b) = a' @ blk @ re_sub re f b"
        using 1 by blast
      ultimately show ?thesis using r by (metis append_assoc)
    qed
  qed
qed

lemma replace_as_sub:
  assumes "old \<noteq> []"
  shows "str_replace old new s = re_sub [Lit old] (\<lambda>ps. new) s"
proof -
  have "replace_from old new s = re_sub [Lit old] (\<lambda>ps. new) s"
    using assms
  proof (induction old new s rule: replace_from.induct)
    case (1 old new)
    show ?case by (simp add: re_sub_def)
  next
    case (2 old new c cs)
    show ?case
    proof (cases "prefix old (c # cs)")
      case True
      have "length (drop (length old) (c # cs)) < length (c # cs)"
        using \<open>old \<noteq> []\<close> by (cases old) auto
      then show ?thesis using True 2 by (simp add: re_sub_def)
    next
      case False
      then show ?thesis using 2 by (simp add: re_sub_def)
    qed
  qed
  then show ?thesis using assms by (simp add: str_replace_def)
qed

lemma replace_keeps_block:
  assumes "old \<noteq> []" "blk \<noteq> []" "hd blk \<notin> set old" "last blk \<notin> set old" "\<not> sublist old blk"
    and "sublist blk s"
  shows "sublist blk (str_replace old new s)"
proof -
  from assms(6) obtain a b where s: "s = a @ blk @ b" by (auto simp: sublist_def)
  have "\<exists>a'. re_sub [Lit old] (\<lambda>ps. new) (a @ blk @ b) = a' @ blk @ re_sub [Lit old] (\<lambda>ps. new) b"
  proof (rule re_sub_keeps_block[where w = old and A = "set old"])
    fix s ps r assume "rmatch [Lit old] s = Some (ps, r)"
    then have "ps = [old]" by (auto split: if_splits)
    then show "sublist old (concat ps) \<and> set (concat ps) \<subseteq> set old" by simp
  qed (use assms in auto)
  then show ?thesis using s replace_as_sub[OF assms(1)] by (metis sublist_appendI)
qed

lemma replace_puts_new:
  assumes "old \<noteq> []" "sublist old s"
  shows "sublist new (str_replace old new s)"
proof -
  have "sublist new (replace_from old new s)"
    using assms
  proof (induction old new s rule: replace_from.induct)
    case (1 old new)
    then show ?case by simp
  next
    case (2 old new c cs)
    show ?case
    proof (cases "prefix old (c # cs)")
      case True
      then show ?thesis using 2 by simp
    next
      case False
      with 2 have "sublist new (replace_from old new cs)"
        by (auto simp: sublist_Cons_right)
      then show ?thesis using False by (auto simp: sublist_Cons_right)
    qed
  qed
  then show ?thesis using assms by (simp add: str_replace_def)
qed

lemma digit_not_angle:
  assumes "d < 10"
  shows "digit d \<noteq> CHR ''<''" "digit d \<noteq> CHR ''>''"
proof -
  have e: "(of_char (digit d) :: int) = 48 + int d" using assms by (simp add: digit_def)
  show "digit d \<noteq> CHR ''<''"
  proof
    assume "digit d = CHR ''<''"
    then have "(of_char (digit d) :: int) = of_char (CHR ''<'')" by simp
    with e assms show False by simp
  qed
  show "digit d \<noteq> CHR ''>''"
  proof
    assume "digit d = CHR ''>''"
    then have "(of_char (digit d) :: int) = of_char (CHR ''>'')" by simp
    with e assms show False by simp
  qed
qed

lemma show_nat_no_angle: "CHR ''<'' \<notin> set (show_nat n) \<and> CHR ''>'' \<notin> set (show_nat n)"
proof (induction n rule: show_nat.induct)
  case (1 n)
  show ?case
  proof (cases "n < 10")
    case True
    then show ?thesis using digit_not_angle[of n] by (subst show_nat.simps, subst show_nat.simps) auto
  next
    case False
    have "n mod 10 < 10" by simp
    then show ?thesis using False 1 digit_not_angle[of "n mod 10"]
      by (subst show_nat.simps, subst show_nat.simps) auto
  qed
qed


lemma marker_facts:
  assumes "name = ''IFRAME'' \<or> name = ''SCRIPT''"
  shows "marker name i \<noteq> []" "CHR ''<'' \<notin> set (marker name i)" "CHR ''>'' \<notin> set (marker name i)"
proof -
  show "marker name i \<noteq> []" by (simp add: marker_def)
  show "CHR ''<'' \<notin> set (marker name i)" using assms show_nat_no_angle[of i]
    by (auto simp: marker_def)
  show "CHR ''>'' \<notin> set (marker name i)" using assms show_nat_no_angle[of i]
    by (auto simp: marker_def)
qed


text \<open>
  The restoration loops: a round for another marker leaves a saved element in the text,
  and the round of its own marker puts it there.
\<close>

lemma restore_step_keeps:
  assumes "name = ''IFRAME'' \<or> name = ''SCRIPT''"
    and "blk \<noteq> []" "hd blk = CHR ''<''" "last blk = CHR ''>''"
    and "\<not> sublist (marker name i) blk" "sublist blk s"
  shows "sublist blk (str_replace (marker name i) new s)"
proof (rule replace_keeps_block)
  show "marker name i \<noteq> []" using marker_facts(1)[OF assms(1)] .
  show "blk \<noteq> []" by fact
  show "hd blk \<notin> set (marker name i)" using marker_facts(2)[OF assms(1)] assms(3) by simp
  show "last blk \<notin> set (marker name i)" using marker_facts(3)[OF assms(1)] assms(4) by simp
  show "\<not> sublist (marker name i) blk" by fact
  show "sublist blk s" by fact
qed

lemma restore_fold_keeps:
  assumes "name = ''IFRAME'' \<or> name = ''SCRIPT''"
    and "blk \<noteq> []" "hd blk = CHR ''<''" "last blk = CHR ''>''"
  shows "\<forall>(i, b) \<in> set xs. \<not> sublist (marker name i) blk \<Longrightarrow> sublist blk s \<Longrightarrow>
     sublist blk (fold (\<lambda>(i, block) content. str_replace (marker name i) ([nl, nl] @ block @ [nl, nl]) content) xs s)"
proof (induction xs arbitrary: s)
  case Nil
  then show ?case by simp
next
  case (Cons x xs)
  obtain i b where x: "x = (i, b)" by (cases x)
  have "\<not> sublist (marker name i) blk" using Cons.prems(1) x by auto
  with assms have "sublist blk (str_replace (marker name i) ([nl, nl] @ b @ [nl, nl]) s)"
    using Cons.prems(2) by (rule restore_step_keeps)
  moreover have "\<forall>(i, b) \<in> set xs. \<not> sublist (marker name i) blk" using Cons.prems(1) by auto
  ultimately show ?case using Cons.IH x by simp
qed

lemma free_of_markersD:
  assumes "free_of_markers n m blk"
  shows "i < n \<Longrightarrow> \<not> sublist (marker ''IFRAME'' i) blk" "i < m \<Longrightarrow> \<not> sublist (marker ''SCRIPT'' i) blk"
  using assms by (auto simp: free_of_markers_def list_all_iff)

lemma restore_keeps:
  assumes "name = ''IFRAME'' \<or> name = ''SCRIPT''"
    and "blk \<noteq> []" "hd blk = CHR ''<''" "last blk = CHR ''>''"
    and "\<And>i. i < length saved \<Longrightarrow> \<not> sublist (marker name i) blk"
    and "sublist blk s"
  shows "sublist blk (restore name saved s)"
proof -
  have "\<forall>(i, b) \<in> set (enumerate 0 saved). \<not> sublist (marker name i) blk"
    using assms(5) by (auto simp: in_set_enumerate_eq)
  then show ?thesis unfolding restore_def using assms(6) by (rule restore_fold_keeps[OF assms(1-4)])
qed

lemma restore_from_marker:
  assumes "name = ''IFRAME'' \<or> name = ''SCRIPT''"
    and "blk \<noteq> []" "hd blk = CHR ''<''" "last blk = CHR ''>''"
    and "\<And>i. i < length saved \<Longrightarrow> \<not> sublist (marker name i) blk"
    and "k < length saved" "blk = saved ! k"
    and "sublist (marker name k) (restore_upto name k saved s)"
  shows "sublist blk (restore name saved s)"
proof -
  let ?step = "\<lambda>(i, block) content. str_replace (marker name i) ([nl, nl] @ block @ [nl, nl]) content"
  let ?en = "enumerate 0 saved"
  define s1 where "s1 = restore_upto name k saved s"
  define s2 where "s2 = str_replace (marker name k) ([nl, nl] @ blk @ [nl, nl]) s1"
  have "k < length ?en" using assms(6) by simp
  then have d: "drop k ?en = (k, blk) # drop (Suc k) ?en"
    using assms(6,7) by (simp add: Cons_nth_drop_Suc[symmetric] nth_enumerate_eq)
  have "restore name saved s = fold ?step (take k ?en @ drop k ?en) s"
    by (simp add: restore_def)
  also have "\<dots> = fold ?step (drop k ?en) s1"
    unfolding s1_def restore_upto_def by (simp only: fold_append comp_def)
  also have "\<dots> = fold ?step (drop (Suc k) ?en) s2" unfolding d s2_def by simp
  finally have e: "restore name saved s = fold ?step (drop (Suc k) ?en) s2" .
  have "sublist ([nl, nl] @ blk @ [nl, nl]) s2"
    unfolding s2_def using marker_facts(1)[OF assms(1)] assms(8)[folded s1_def]
    by (rule replace_puts_new)
  moreover have "sublist blk ([nl, nl] @ blk @ [nl, nl])" by (rule sublist_appendI)
  ultimately have b: "sublist blk s2" using sublist_order.order_trans by blast
  have "\<forall>(i, b) \<in> set (drop (Suc k) ?en). \<not> sublist (marker name i) blk"
    using assms(5) by (auto simp: in_set_enumerate_eq dest!: in_set_dropD)
  then have "sublist blk (fold ?step (drop (Suc k) ?en) s2)"
    using b by (rule restore_fold_keeps[OF assms(1-4)])
  then show ?thesis using e by simp
qed


text \<open>The cleanup leaves such an element in the text.\<close>

lemma rep_alone:
  "rmatch [Rep n P] s = Some (ps, r) \<Longrightarrow> \<exists>m. ps = [m] \<and> (\<forall>c \<in> set m. P c) \<and> n \<le> length m"
proof (induction n arbitrary: s ps r)
  case 0
  then have "ps = [takeWhile P s]" by (simp add: rep0_alone)
  then show ?case by (auto dest: set_takeWhileD)
next
  case (Suc n)
  then obtain c cs where s: "s = c # cs" by (cases s) auto
  with Suc.prems have c: "P c" and "push_char c (rmatch [Rep n P] cs) = Some (ps, r)"
    by (auto split: if_splits)
  then obtain p ps' where m: "rmatch [Rep n P] cs = Some (p # ps', r)" and ps: "ps = (c # p) # ps'"
    by (auto simp: push_char_Some)
  from Suc.IH[OF m] c ps show ?case by auto
qed

lemma newlines_match:
  assumes "rmatch newlines_re s = Some (ps, r)"
  shows "sublist [nl, nl, nl] (concat ps) \<and> set (concat ps) \<subseteq> {nl}"
proof -
  from rep_alone[of 3 "\<lambda>c. c = nl" s ps r] assms obtain m
    where ps: "ps = [m]" and m: "\<forall>c \<in> set m. c = nl" and l: "3 \<le> length m"
    by (auto simp: newlines_re_def)
  from l obtain a b c w where "m = a # b # c # w"
    by (metis Suc_le_length_iff numeral_3_eq_3)
  with m have "m = [nl, nl, nl] @ w" by simp
  then have "sublist [nl, nl, nl] m" by auto
  then show ?thesis using ps m by auto
qed

lemma collapse_keeps_block:
  assumes "blk \<noteq> []" "hd blk \<noteq> nl" "last blk \<noteq> nl" "\<not> sublist [nl, nl, nl] blk"
    and "sublist blk s"
  shows "sublist blk (re_sub newlines_re f s)"
proof -
  from assms(5) obtain a b where s: "s = a @ blk @ b" by (auto simp: sublist_def)
  have "\<exists>a'. re_sub newlines_re f (a @ blk @ b) = a' @ blk @ re_sub newlines_re f b"
    by (rule re_sub_keeps_block[where w = "[nl, nl, nl]" and A = "{nl}"])
       (use assms newlines_match in auto)
  then show ?thesis using s by (metis sublist_appendI)
qed

lemma dropWhile_keeps_block:
  assumes "blk \<noteq> []" "\<not> P (hd blk)"
  shows "\<exists>a'. dropWhile P (a @ blk @ b) = a' @ blk @ b"
proof (induction a)
  case Nil
  have "dropWhile P (blk @ b) = blk @ b" using assms by (cases blk) auto
  then show ?case by (metis append_Nil)
next
  case (Cons x a)
  then show ?case by (cases "P x") (auto intro: exI[of _ "x # a"])
qed

lemma strip_with_keeps_block:
  assumes "blk \<noteq> []" "\<not> P (hd blk)" "\<not> P (last blk)" "sublist blk s"
  shows "sublist blk (strip_with P s)"
proof -
  from assms(4) obtain a b where s: "s = a @ blk @ b" by (auto simp: sublist_def)
  from dropWhile_keeps_block[of blk P a b] assms(1,2) obtain a'
    where 1: "dropWhile P s = a' @ blk @ b" using s by auto
  have "rev blk \<noteq> []" "\<not> P (hd (rev blk))" using assms(1,3) by (simp_all add: hd_rev)
  with dropWhile_keeps_block[of "rev blk" P "rev b" "rev a'"] obtain b'
    where "dropWhile P (rev b @ rev blk @ rev a') = b' @ rev blk @ rev a'" by auto
  then have "strip_with P s = a' @ blk @ rev b'" using 1 by (simp add: strip_with_def)
  then show ?thesis by (metis sublist_appendI)
qed


lemma entity_keeps_block:
  assumes "blk \<noteq> []" "hd blk = CHR ''<''" "last blk = CHR ''>''" "\<not> sublist old blk"
    and "old \<noteq> []" "CHR ''<'' \<notin> set old" "CHR ''>'' \<notin> set old"
    and "sublist blk s"
  shows "sublist blk (str_replace old new s)"
  by (rule replace_keeps_block) (use assms in auto)

lemma cleanup_keeps_block:
  assumes "blk \<noteq> []" "hd blk = CHR ''<''" "last blk = CHR ''>''" "untouched_by_cleanup blk"
    and "sublist blk s"
  shows "sublist blk (cleanup s)"
proof -
  have n3: "\<not> sublist [nl, nl, nl] blk"
    and e: "\<not> sublist ''&nbsp;'' blk" "\<not> sublist ''&amp;'' blk" "\<not> sublist ''&quot;'' blk"
      "\<not> sublist ''&lt;'' blk" "\<not> sublist ''&gt;'' blk"
    using assms(4) by (simp_all add: untouched_by_cleanup_def entities_def)
  have ent: "sublist blk (str_replace old new x)"
    if "sublist blk x" "\<not> sublist old blk" "old \<noteq> []" "CHR ''<'' \<notin> set old" "CHR ''>'' \<notin> set old"
    for old new x
    using assms(1-3) that(2-5) that(1) by (rule entity_keeps_block)
  have "hd blk \<noteq> nl" "last blk \<noteq> nl" using assms(2,3) by (simp_all add: nl_def)
  with assms(1) have 0: "sublist blk (re_sub newlines_re (\<lambda>ps. [nl, nl]) s)"
    using n3 assms(5) by (rule collapse_keeps_block)
  have 1: "sublist blk (str_replace ''&nbsp;'' '' '' (re_sub newlines_re (\<lambda>ps. [nl, nl]) s))"
    by (rule ent[OF 0 e(1)]) simp_all
  have 2: "sublist blk (str_replace ''&amp;'' ''&''
      (str_replace ''&nbsp;'' '' '' (re_sub newlines_re (\<lambda>ps. [nl, nl]) s)))"
    by (rule ent[OF 1 e(2)]) simp_all
  have 3: "sublist blk (str_replace ''&quot;'' [dquote] (str_replace ''&amp;'' ''&''
      (str_replace ''&nbsp;'' '' '' (re_sub newlines_re (\<lambda>ps. [nl, nl]) s))))"
    by (rule ent[OF 2 e(3)]) simp_all
  have 4: "sublist blk (str_replace ''&lt;'' ''<'' (str_replace ''&quot;'' [dquote]
      (str_replace ''&amp;'' ''&''
      (str_replace ''&nbsp;'' '' '' (re_sub newlines_re (\<lambda>ps. [nl, nl]) s)))))"
    by (rule ent[OF 3 e(4)]) simp_all
  have 5: "sublist blk (str_replace ''&gt;'' ''>'' (str_replace ''&lt;'' ''<''
      (str_replace ''&quot;'' [dquote] (str_replace ''&amp;'' ''&''
      (str_replace ''&nbsp;'' '' '' (re_sub newlines_re (\<lambda>ps. [nl, nl]) s))))))"
    by (rule ent[OF 4 e(5)]) simp_all
  have "\<not> is_space (hd blk)" "\<not> is_space (last blk)"
    using assms(2,3) by (simp_all add: is_space_def code_def)
  with assms(1) show ?thesis
    unfolding cleanup_def Let_def strip_def using 5 by (rule strip_with_keeps_block)
qed

lemma preserve_as_state:
  "saved_state s = (x, iframes, scripts) \<Longrightarrow>
     preserve_and_finish s = cleanup (restore ''SCRIPT'' scripts (restore ''IFRAME'' iframes x))"
  by (auto simp: saved_state_def preserve_and_finish_def Let_def split: prod.splits)

lemma saved_state_ends:
  assumes "saved_state s = (x, iframes, scripts)" "b \<in> set iframes \<or> b \<in> set scripts"
  shows "b \<noteq> [] \<and> hd b = CHR ''<'' \<and> last b = CHR ''>''"
proof -
  obtain c1 where 1: "save_blocks ''iframe'' ''IFRAME'' s = (c1, iframes)"
    using assms(1) by (auto simp: saved_state_def Let_def split: prod.splits)
  then obtain c2 where 2: "save_blocks ''script'' ''SCRIPT'' c1 = (c2, scripts)"
    using assms(1) by (auto simp: saved_state_def Let_def split: prod.splits)
  from assms(2) show ?thesis
  proof
    assume "b \<in> set iframes"
    then have "b \<in> set (snd (save_blocks ''iframe'' ''IFRAME'' s))" using 1 by simp
    then show ?thesis by (rule saved_block_ends)
  next
    assume "b \<in> set scripts"
    then have "b \<in> set (snd (save_blocks ''script'' ''SCRIPT'' c1))" using 2 by simp
    then show ?thesis by (rule saved_block_ends)
  qed
qed

lemma saved_state_at:
  assumes "saved_state s = (x, iframes, scripts)"
  shows "b \<in> set iframes \<Longrightarrow> \<exists>pre post. s = pre @ b @ post \<and> block_at ''iframe'' b post"
    and "b \<in> set scripts \<Longrightarrow>
      \<exists>pre post. fst (save_blocks ''iframe'' ''IFRAME'' s) = pre @ b @ post \<and> block_at ''script'' b post"
proof -
  obtain c1 where 1: "save_blocks ''iframe'' ''IFRAME'' s = (c1, iframes)"
    using assms by (auto simp: saved_state_def Let_def split: prod.splits)
  then obtain c2 where 2: "save_blocks ''script'' ''SCRIPT'' c1 = (c2, scripts)"
    using assms by (auto simp: saved_state_def Let_def split: prod.splits)
  show "\<exists>pre post. s = pre @ b @ post \<and> block_at ''iframe'' b post" if "b \<in> set iframes"
  proof -
    from that have "b \<in> set (snd (save_blocks ''iframe'' ''IFRAME'' s))" using 1 by simp
    then show ?thesis by (rule saved_block_at)
  qed
  show "\<exists>pre post. fst (save_blocks ''iframe'' ''IFRAME'' s) = pre @ b @ post \<and> block_at ''script'' b post"
    if "b \<in> set scripts"
  proof -
    from that have "b \<in> set (snd (save_blocks ''script'' ''SCRIPT'' c1))" using 2 by simp
    then show ?thesis using 1 by (simp add: saved_block_at)
  qed
qed


lemma save_tokens_plain:
  "save_tokens name (map Ch u @ ts) saved =
     (u @ fst (save_tokens name ts saved), snd (save_tokens name ts saved))"
  by (induction u) (simp_all add: case_prod_beta)

lemma rewrite_text_Nil: "rewrite_text charrefs [] = []"
  by code_simp


text \<open>
  C1, as amended. The embedded elements are saved from the text as it stands after the
  rewrites (entities decoded, CDATA markers removed, block-level and inline elements
  rewritten): \<open>iframes\<close> are the iframe elements that the pattern finds there, in order,
  \<open>scripts\<close> the script elements that it finds once the iframe elements are replaced by
  their markers, and \<open>x\<close> is the text with the markers after the tags are stripped. Every
  saved element whose marker stands in the text when the restoration loop comes to it is
  in the result of the transformer, unchanged, whatever markup it holds and wherever it
  stood, provided that it holds none of the markers in use, no three newlines in a row
  and none of the five entities that the cleanup replaces. And every saved element is a
  complete element of the text it was saved from, as the pattern matches it there.
\<close>

theorem saved_block_restored:
  assumes st: "saved_state (rewrite_text charrefs html) = (x, iframes, scripts)"
    and turn: "(k < length iframes \<and> blk = iframes ! k \<and>
          sublist (marker ''IFRAME'' k) (restore_upto ''IFRAME'' k iframes x)) \<or>
         (k < length scripts \<and> blk = scripts ! k \<and>
          sublist (marker ''SCRIPT'' k)
            (restore_upto ''SCRIPT'' k scripts (restore ''IFRAME'' iframes x)))"
    and fm: "free_of_markers (length iframes) (length scripts) blk"
    and uc: "untouched_by_cleanup blk"
  shows "sublist blk (html_to_markdown charrefs html) \<and>
    (\<exists>pre post.
       (rewrite_text charrefs html = pre @ blk @ post \<and> block_at ''iframe'' blk post) \<or>
       (fst (save_blocks ''iframe'' ''IFRAME'' (rewrite_text charrefs html)) = pre @ blk @ post \<and>
        block_at ''script'' blk post))"
proof -
  from turn have mem: "blk \<in> set iframes \<or> blk \<in> set scripts" by auto
  have at: "\<exists>pre post.
       (rewrite_text charrefs html = pre @ blk @ post \<and> block_at ''iframe'' blk post) \<or>
       (fst (save_blocks ''iframe'' ''IFRAME'' (rewrite_text charrefs html)) = pre @ blk @ post \<and>
        block_at ''script'' blk post)"
    using mem saved_state_at[OF st, of blk] by blast
  from st mem have b: "blk \<noteq> []" "hd blk = CHR ''<''" "last blk = CHR ''>''"
    using saved_state_ends by blast+
  have "html \<noteq> []"
  proof
    assume "html = []"
    then have "saved_state (rewrite_text charrefs html) = ([], [], [])"
      by (simp add: rewrite_text_Nil saved_state_def save_blocks_def strip_tags_Nil)
    with st turn show False by simp
  qed
  then have out: "html_to_markdown charrefs html
      = cleanup (restore ''SCRIPT'' scripts (restore ''IFRAME'' iframes x))"
    using preserve_as_state[OF st] by (simp add: html_to_markdown_def)
  have fi: "\<not> sublist (marker ''IFRAME'' i) blk" if "i < length iframes" for i
    using free_of_markersD(1)[OF fm that] .
  have fs: "\<not> sublist (marker ''SCRIPT'' i) blk" if "i < length scripts" for i
    using free_of_markersD(2)[OF fm that] .
  from turn have "sublist blk (restore ''SCRIPT'' scripts (restore ''IFRAME'' iframes x))"
  proof
    assume a: "k < length iframes \<and> blk = iframes ! k \<and>
          sublist (marker ''IFRAME'' k) (restore_upto ''IFRAME'' k iframes x)"
    then have a1: "k < length iframes" and a2: "blk = iframes ! k"
      and a3: "sublist (marker ''IFRAME'' k) (restore_upto ''IFRAME'' k iframes x)" by blast+
    have r1: "sublist blk (restore ''IFRAME'' iframes x)"
      by (rule restore_from_marker[OF _ b fi a1 a2 a3]) simp_all
    show ?thesis by (rule restore_keeps[OF _ b fs r1]) simp_all
  next
    assume a: "k < length scripts \<and> blk = scripts ! k \<and>
          sublist (marker ''SCRIPT'' k)
            (restore_upto ''SCRIPT'' k scripts (restore ''IFRAME'' iframes x))"
    then have a1: "k < length scripts" and a2: "blk = scripts ! k"
      and a3: "sublist (marker ''SCRIPT'' k)
            (restore_upto ''SCRIPT'' k scripts (restore ''IFRAME'' iframes x))" by blast+
    show ?thesis
      by (rule restore_from_marker[OF _ b fs a1 a2 a3]) simp_all
  qed
  with b uc have "sublist blk (html_to_markdown charrefs html)"
    unfolding out by (rule cleanup_keeps_block)
  with at show ?thesis by blast
qed

theorem saved_block_restored_witness:
  "sublist ''<iframe src=u></iframe>'' (html_to_markdown id ''<div><iframe src=u></iframe></div>'') \<and>
   sublist ''<iframe src=b><div>y</div></iframe>''
     (html_to_markdown id
        ''<iframe src=a></iframe><script>f(1<2)</script> x <iframe src=b><div>y</div></iframe>'') \<and>
   sublist ''<script>f(1<2)</script>''
     (html_to_markdown id
        ''<iframe src=a></iframe><script>f(1<2)</script> x <iframe src=b><div>y</div></iframe>'')"
proof -
  let ?h1 = "''<div><iframe src=u></iframe></div>''"
  let ?x1 = "''___IFRAME_0___''"
  let ?i1 = "[''<iframe src=u></iframe>'']"
  have r1: "rewrite_text id ?h1 = ?h1" by code_simp
  have s1: "saved_state ?h1 = (?x1, ?i1, [])" by code_simp
  have st1: "saved_state (rewrite_text id ?h1) = (?x1, ?i1, [])" using r1 s1 by simp
  have t1: "(0 < length ?i1 \<and> ''<iframe src=u></iframe>'' = ?i1 ! 0 \<and>
        sublist (marker ''IFRAME'' 0) (restore_upto ''IFRAME'' 0 ?i1 ?x1)) \<or>
       (0 < length ([] :: string list) \<and> ''<iframe src=u></iframe>'' = [] ! 0 \<and>
        sublist (marker ''SCRIPT'' 0) (restore_upto ''SCRIPT'' 0 [] (restore ''IFRAME'' ?i1 ?x1)))"
    by code_simp
  have f1: "free_of_markers (length ?i1) (length ([] :: string list)) ''<iframe src=u></iframe>''"
    by code_simp
  have u1: "untouched_by_cleanup ''<iframe src=u></iframe>''" by code_simp
  let ?h2 = "''<iframe src=a></iframe><script>f(1<2)</script> x <iframe src=b><div>y</div></iframe>''"
  let ?x2 = "''___IFRAME_0______SCRIPT_0___ x ___IFRAME_1___''"
  let ?i2 = "[''<iframe src=a></iframe>'', ''<iframe src=b><div>y</div></iframe>'']"
  let ?s2 = "[''<script>f(1<2)</script>'']"
  have r2: "rewrite_text id ?h2 = ?h2" by code_simp
  have s2: "saved_state ?h2 = (?x2, ?i2, ?s2)" by code_simp
  have st2: "saved_state (rewrite_text id ?h2) = (?x2, ?i2, ?s2)" using r2 s2 by simp
  have t2: "(1 < length ?i2 \<and> ''<iframe src=b><div>y</div></iframe>'' = ?i2 ! 1 \<and>
        sublist (marker ''IFRAME'' 1) (restore_upto ''IFRAME'' 1 ?i2 ?x2)) \<or>
       (1 < length ?s2 \<and> ''<iframe src=b><div>y</div></iframe>'' = ?s2 ! 1 \<and>
        sublist (marker ''SCRIPT'' 1) (restore_upto ''SCRIPT'' 1 ?s2 (restore ''IFRAME'' ?i2 ?x2)))"
    by code_simp
  have f2: "free_of_markers (length ?i2) (length ?s2) ''<iframe src=b><div>y</div></iframe>''"
    by code_simp
  have u2: "untouched_by_cleanup ''<iframe src=b><div>y</div></iframe>''" by code_simp
  have t3: "(0 < length ?i2 \<and> ''<script>f(1<2)</script>'' = ?i2 ! 0 \<and>
        sublist (marker ''IFRAME'' 0) (restore_upto ''IFRAME'' 0 ?i2 ?x2)) \<or>
       (0 < length ?s2 \<and> ''<script>f(1<2)</script>'' = ?s2 ! 0 \<and>
        sublist (marker ''SCRIPT'' 0) (restore_upto ''SCRIPT'' 0 ?s2 (restore ''IFRAME'' ?i2 ?x2)))"
    by code_simp
  have f3: "free_of_markers (length ?i2) (length ?s2) ''<script>f(1<2)</script>''"
    by code_simp
  have u3: "untouched_by_cleanup ''<script>f(1<2)</script>''" by code_simp
  show ?thesis
    using saved_block_restored[OF st1 t1 f1 u1] saved_block_restored[OF st2 t2 f2 u2]
      saved_block_restored[OF st2 t3 f3 u3]
    by blast
qed

text \<open>
  C1, as stated, fails. The elements are saved after the rewrites, so markup inside an
  iframe element is rewritten like any other: the paragraph inside the first element
  below loses its tags and gains two newlines, and the element of the input is not in
  the result. The cleanup works on the restored elements too: it collapses the three
  newlines of the second element, and in the third it decodes the entity that
  \<open>html.unescape\<close> has left, so that not even the element as it was saved,
  \<open><iframe title=a&amp;b></iframe>\<close>, is in the result. The same holds for script
  elements: the heading rule rewrites the markup in the string of the last one.
\<close>

theorem inner_markup_rewritten:
  "block_at ''iframe'' ''<iframe src=u><p>no frames</p></iframe>'' [] \<and>
   html_to_markdown id ''<iframe src=u><p>no frames</p></iframe>''
     = ''<iframe src=u>no frames\<newline>\<newline></iframe>'' \<and>
   \<not> sublist ''<iframe src=u><p>no frames</p></iframe>''
     (html_to_markdown id ''<iframe src=u><p>no frames</p></iframe>'') \<and>
   block_at ''iframe'' ''<iframe src=u>\<newline>\<newline>\<newline></iframe>'' [] \<and>
   html_to_markdown id ''<iframe src=u>\<newline>\<newline>\<newline></iframe>''
     = ''<iframe src=u>\<newline>\<newline></iframe>'' \<and>
   \<not> sublist ''<iframe src=u>\<newline>\<newline>\<newline></iframe>''
     (html_to_markdown id ''<iframe src=u>\<newline>\<newline>\<newline></iframe>'') \<and>
   block_at ''iframe'' ''<iframe title=a&amp;amp;b></iframe>'' [] \<and>
   html_to_markdown amp_only ''<iframe title=a&amp;amp;b></iframe>'' = ''<iframe title=a&b></iframe>'' \<and>
   \<not> sublist ''<iframe title=a&amp;b></iframe>''
     (html_to_markdown amp_only ''<iframe title=a&amp;amp;b></iframe>'') \<and>
   block_at ''script'' ''<script>document.write(\"<h2>\" + t + \"</h2>\")</script>'' [] \<and>
   html_to_markdown id ''<script>document.write(\"<h2>\" + t + \"</h2>\")</script>''
     = ''<script>document.write(\"## \" + t + \"\")</script>''"
proof -
  have 1: "block_at ''iframe'' ''<iframe src=u><p>no frames</p></iframe>'' []" by code_simp
  have 2: "html_to_markdown id ''<iframe src=u><p>no frames</p></iframe>''
     = ''<iframe src=u>no frames\<newline>\<newline></iframe>''" by code_simp
  have 3: "\<not> sublist ''<iframe src=u><p>no frames</p></iframe>''
     ''<iframe src=u>no frames\<newline>\<newline></iframe>''" by code_simp
  have 4: "block_at ''iframe'' ''<iframe src=u>\<newline>\<newline>\<newline></iframe>'' []" by code_simp
  have 5: "html_to_markdown id ''<iframe src=u>\<newline>\<newline>\<newline></iframe>''
     = ''<iframe src=u>\<newline>\<newline></iframe>''" by code_simp
  have 6: "\<not> sublist ''<iframe src=u>\<newline>\<newline>\<newline></iframe>''
     ''<iframe src=u>\<newline>\<newline></iframe>''" by code_simp
  have 7: "block_at ''iframe'' ''<iframe title=a&amp;amp;b></iframe>'' []" by code_simp
  have 8: "html_to_markdown amp_only ''<iframe title=a&amp;amp;b></iframe>'' = ''<iframe title=a&b></iframe>''"
    by code_simp
  have 9: "\<not> sublist ''<iframe title=a&amp;b></iframe>'' ''<iframe title=a&b></iframe>''"
    by code_simp
  have 10: "block_at ''script'' ''<script>document.write(\"<h2>\" + t + \"</h2>\")</script>'' []"
    by code_simp
  have 11: "html_to_markdown id ''<script>document.write(\"<h2>\" + t + \"</h2>\")</script>''
     = ''<script>document.write(\"## \" + t + \"\")</script>''" by code_simp
  show ?thesis using 1 2 3 4 5 6 7 8 9 10 11 by simp
qed

text \<open>
  Ways in which an element is lost although the source means to keep it (its
  comments: \<open>Preserve embedded elements\<close>, \<open>Strip remaining HTML tags\<close>, \<open>Restore preserved
  elements\<close>); the amended C1 neither promises nor denies anything of them. The pattern of
  the italic rule, \<open><i[^>]*>\<close>, matches the opening tag of an iframe element when a \<open></i>\<close>
  follows: the element is gone before it is saved.
\<close>

theorem iframe_taken_for_italic:
  "html_to_markdown charrefs ''<iframe src=x></iframe> and <i>it</i>'' = ''* and it*''"
  by code_simp

text \<open>
  The tag-stripping pattern takes the text from a \<open><\<close> to the next \<open>>\<close> for a tag: the
  marker of a saved element between the two is removed with it, and the element is never
  restored.
\<close>

theorem marker_stripped_with_tag:
  "html_to_markdown charrefs ''1 < 2 <iframe src=u></iframe> <div>x</div>'' = ''1 x''"
  by code_simp

text \<open>
  The iframe elements are restored before the script elements: the marker of an iframe
  element inside a script element is saved with the script, is not in the text when the
  iframe elements are restored, and stands in the result in place of the element.
\<close>

theorem iframe_marker_left_in_script:
  "html_to_markdown charrefs ''<script>w(<iframe></iframe>)</script>''
     = ''<script>w(___IFRAME_0___)</script>''"
  by code_simp

text \<open>
  A saved element that holds the text of a marker in use is restored with that text
  replaced as well: the script element below is put into the iframe element.
\<close>

theorem marker_text_in_element:
  "html_to_markdown charrefs ''<iframe>___SCRIPT_0___</iframe><script>s</script>''
     = ''<iframe>\<newline>\<newline><script>s</script>\<newline>\<newline></iframe>\<newline>\<newline><script>s</script>''"
  by code_simp


section \<open>A second run of the transformer\<close>

text \<open>
  The text of every item of a match is in the match, and a literal takes its own text.
  Every pattern of the transformer begins with \<open><\<close> and a letter and holds a \<open>>\<close> later,
  so where one of them matches, a tag begins.
\<close>

lemma rmatch_parts:
  "rmatch re s = Some (ps, r) \<Longrightarrow>
     length ps = length re \<and> (\<forall>k l. k < length re \<longrightarrow> re ! k = Lit l \<longrightarrow> ps ! k = l)"
proof (induction re s arbitrary: ps r rule: rmatch.induct)
  case (1 s)
  then show ?case by simp
next
  case (2 p re s)
  then show ?case by (auto simp: add_part_Some nth_Cons split: if_splits nat.splits)
next
  case (3 f p re s)
  then show ?case by (auto simp: add_part_Some nth_Cons split: if_splits nat.splits)
next
  case (5 P re c cs)
  then show ?case by (auto simp: add_part_Some nth_Cons split: if_splits nat.splits)
next
  case (7 n P re c cs)
  then show ?case by (auto simp: add_part_Some push_char_Some nth_Cons split: if_splits nat.splits)
next
  case (8 P re)
  then show ?case by (auto simp: add_part_Some nth_Cons split: if_splits nat.splits)
next
  case (9 P re c cs)
  then show ?case
    by (auto simp: add_part_Some push_char_Some nth_Cons split: if_splits option.splits nat.splits)
next
  case (10 re)
  then show ?case by (auto simp: add_part_Some nth_Cons split: if_splits nat.splits)
next
  case (11 re c cs)
  then show ?case
    by (auto simp: add_part_Some push_char_Some nth_Cons split: if_splits option.splits nat.splits)
next
  case (12 x re)
  then show ?case by (auto simp: add_part_Some nth_Cons split: if_splits nat.splits)
next
  case (13 x re c cs)
  then show ?case
    by (auto simp: add_part_Some nth_Cons split: if_splits option.splits nat.splits)
qed auto

lemma gt_in_match:
  assumes "rmatch re s = Some (ps, r)" "Lit ''>'' \<in> set re"
  shows "CHR ''>'' \<in> set (concat ps)"
proof -
  from assms(2) obtain k where k: "k < length re" "re ! k = Lit ''>''"
    by (auto simp: in_set_conv_nth)
  with rmatch_parts[OF assms(1)] have "ps ! k = ''>''" "k < length ps" by auto
  then have "''>'' \<in> set ps" by (metis nth_mem)
  then show ?thesis by (auto intro!: bexI[of _ "''>''"])
qed

lemma lit_match_tag_at:
  assumes "rmatch (Lit (CHR ''<'' # c # p) # rest) x = Some (ps, q)"
    and "c \<noteq> CHR ''>''" "Lit ''>'' \<in> set rest"
  shows "tag_at x"
proof -
  from assms(1) obtain ps' where pre: "prefix (CHR ''<'' # c # p) x"
    and m: "rmatch rest (drop (length (CHR ''<'' # c # p)) x) = Some (ps', q)"
    by (auto simp: add_part_Some split: if_splits)
  from pre obtain x' where x: "x = (CHR ''<'' # c # p) @ x'" by (auto simp: prefix_def)
  with m have m': "rmatch rest x' = Some (ps', q)" by simp
  from gt_in_match[OF m' assms(3)] rmatch_split[OF m'] have "CHR ''>'' \<in> set x'" by auto
  then show ?thesis using x assms(2) by (auto simp: tag_at_iff)
qed

lemma block_match_tag_at:
  assumes "rmatch (block_re (c # t)) x = Some (ps, q)" "c \<noteq> CHR ''>''"
  shows "tag_at x"
proof -
  define q1 where "q1 = ''</'' @ (c # t) @ ''>''"
  from assms(1) obtain ps' where pc: "prefix_ci lower_char (CHR ''<'' # c # t) x"
    and m: "rmatch [Rep 0 not_gt, Lit ''>'', Lazy, LitI lower_char q1]
              (drop (length (CHR ''<'' # c # t)) x) = Some (ps', q)"
    unfolding block_re_def litI_Some q1_def by auto
  from pc obtain d x' where x: "x = CHR ''<'' # d # x'" and d: "lower_char c = lower_char d"
    by (cases x; cases "tl x") (auto simp: lower_char_lt_eq split: if_splits)
  have "d \<noteq> CHR ''>''" using d assms(2) lower_char_gt_eq[of c] by auto
  moreover have "CHR ''>'' \<in> set (concat ps')"
    using m by (rule gt_in_match) simp
  then have "CHR ''>'' \<in> set (drop (length t) x')"
    using rmatch_split[OF m] x by auto
  then have "CHR ''>'' \<in> set x'" by (meson in_set_dropD)
  ultimately show ?thesis using x by (auto simp: tag_at_iff)
qed

lemma scan_tagless:
  assumes "\<And>x ps q. rmatch re x = Some (ps, q) \<Longrightarrow> tag_at x"
  shows "tagless s \<Longrightarrow> scan re s = map Ch s"
proof (induction s)
  case Nil
  show ?case by simp
next
  case (Cons c s)
  then have "rmatch re (c # s) = None" using assms[of "c # s"]
    by (cases "rmatch re (c # s)") auto
  then show ?case using Cons by simp
qed

lemma re_sub_tagless:
  assumes "\<And>x ps q. rmatch re x = Some (ps, q) \<Longrightarrow> tag_at x" "tagless s"
  shows "re_sub re f s = s"
  using scan_tagless[OF assms] by (simp add: re_sub_def comp_def)

lemma element_tagless:
  assumes "tagless s" "c \<noteq> CHR ''>''"
  shows "re_sub (element_re (c # t)) f s = s"
proof (rule re_sub_tagless)
  fix x ps q assume "rmatch (element_re (c # t)) x = Some (ps, q)"
  then have "rmatch (Lit (CHR ''<'' # c # t) # [Rep 0 not_gt, Lit ''>'', Lazy, Lit (''</'' @ (c # t) @ ''>'')]) x
      = Some (ps, q)" by (simp add: element_re_def)
  then show "tag_at x" by (rule lit_match_tag_at) (simp_all add: assms(2))
qed (rule assms(1))

lemma heading_tagless: "tagless s \<Longrightarrow> fold convert_heading levels s = s"
proof (induction levels)
  case Nil
  show ?case by simp
next
  case (Cons l levels)
  have "convert_heading l s = s"
    unfolding convert_heading_def using Cons.prems by (simp add: element_tagless)
  then show ?case using Cons by simp
qed

lemma block_rewrites_tagless: "tagless s \<Longrightarrow> block_rewrites s = s"
  by (simp add: block_rewrites_def heading_tagless element_tagless)

lemma inline_rewrites_tagless:
  assumes "tagless s"
  shows "inline_rewrites s = s"
proof -
  have "re_sub link_re f s = s" for f
  proof (rule re_sub_tagless)
    fix x ps q assume "rmatch link_re x = Some (ps, q)"
    then show "tag_at x" unfolding link_re_def by (rule lit_match_tag_at) simp_all
  qed (rule assms)
  moreover have "re_sub img_alt_re f s = s" for f
  proof (rule re_sub_tagless)
    fix x ps q assume "rmatch img_alt_re x = Some (ps, q)"
    then show "tag_at x" unfolding img_alt_re_def by (rule lit_match_tag_at) simp_all
  qed (rule assms)
  moreover have "re_sub img_re f s = s" for f
  proof (rule re_sub_tagless)
    fix x ps q assume "rmatch img_re x = Some (ps, q)"
    then show "tag_at x" unfolding img_re_def by (rule lit_match_tag_at) simp_all
  qed (rule assms)
  moreover have "re_sub br_re f s = s" for f
  proof (rule re_sub_tagless)
    fix x ps q assume "rmatch br_re x = Some (ps, q)"
    then show "tag_at x" unfolding br_re_def by (rule lit_match_tag_at) simp_all
  qed (rule assms)
  ultimately show ?thesis using assms by (simp add: inline_rewrites_def element_tagless)
qed

lemma save_blocks_tagless:
  assumes "tagless s" "c \<noteq> CHR ''>''"
  shows "save_blocks (c # t) name s = (s, [])"
proof -
  have "scan (block_re (c # t)) s = map Ch s"
    using block_match_tag_at[OF _ assms(2)] assms(1) by (rule scan_tagless)
  then show ?thesis using save_tokens_plain[of name s "[]" "[]"] by (simp add: save_blocks_def)
qed


text \<open>A text without tags stays one when its newlines are collapsed and its ends trimmed.\<close>

lemma tag_at_append: "tag_at a \<Longrightarrow> tag_at (a @ b)"
  by (auto simp: tag_at_iff)

lemma tagless_suffix: "tagless (a @ b) \<Longrightarrow> tagless b"
  by (induction a) auto

lemma tagless_prefix: "tagless (a @ b) \<Longrightarrow> tagless a"
proof (induction a)
  case Nil
  show ?case by simp
next
  case (Cons c a)
  then have "\<not> tag_at ((c # a) @ b)" "tagless a" by auto
  then show ?case using tag_at_append[of "c # a" b] by auto
qed

lemma tagless_strip_with: "tagless s \<Longrightarrow> tagless (strip_with P s)"
proof -
  assume t: "tagless s"
  from strip_with_sublist[of P s] obtain a b where "s = a @ strip_with P s @ b"
    by (auto simp: sublist_def)
  with t have "tagless (strip_with P s @ b)" using tagless_suffix by metis
  then show ?thesis by (rule tagless_prefix)
qed

lemma rep_exact:
  "rmatch [Rep n P] s =
     (if n \<le> length (takeWhile P s) then Some ([takeWhile P s], dropWhile P s) else None)"
proof (induction n arbitrary: s)
  case 0
  show ?case by (simp add: rep0_alone)
next
  case (Suc n)
  show ?case
  proof (cases s)
    case Nil
    then show ?thesis by simp
  next
    case (Cons c cs)
    then show ?thesis using Suc[of cs] by simp
  qed
qed

lemma collapse_Nil: "re_sub newlines_re f [] = []"
  by (simp add: re_sub_def)

lemma collapse_Cons:
  "re_sub newlines_re f (c # cs) =
     (if 3 \<le> length (takeWhile (\<lambda>c. c = nl) (c # cs))
      then f [takeWhile (\<lambda>c. c = nl) (c # cs)] @ re_sub newlines_re f (dropWhile (\<lambda>c. c = nl) (c # cs))
      else c # re_sub newlines_re f cs)"
proof (cases "3 \<le> length (takeWhile (\<lambda>c. c = nl) (c # cs))")
  case True
  then have "c = nl" by (auto split: if_splits)
  then have "length (dropWhile (\<lambda>c. c = nl) (c # cs)) < length (c # cs)"
    using length_dropWhile_le[of "\<lambda>c. c = nl" cs] by simp
  then show ?thesis using True
    unfolding re_sub_def newlines_re_def scan.simps rep_exact by simp
next
  case False
  then show ?thesis
    unfolding re_sub_def newlines_re_def scan.simps rep_exact by simp
qed


lemma set_re_sub:
  assumes "\<And>ps. set (f ps) \<subseteq> B"
  shows "set (re_sub re f s) \<subseteq> set s \<union> B"
proof (induction s rule: length_induct)
  case (1 s)
  show ?case
  proof (cases s)
    case Nil
    then show ?thesis by (simp add: re_sub_def)
  next
    case (Cons c cs)
    have tl: "set (re_sub re f cs) \<subseteq> set cs \<union> B" using 1 Cons by simp
    show ?thesis
    proof (cases "rmatch re (c # cs)")
      case None
      then have "re_sub re f s = c # re_sub re f cs" using Cons by (simp add: re_sub_def)
      then show ?thesis using tl Cons by auto
    next
      case (Some m)
      obtain ps r where m: "m = (ps, r)" by (cases m)
      show ?thesis
      proof (cases "length r < length (c # cs)")
        case True
        then have e: "re_sub re f s = f ps @ re_sub re f r" using Some m Cons by (simp add: re_sub_def)
        have "set (re_sub re f r) \<subseteq> set r \<union> B" using 1 True Cons by simp
        moreover have "set r \<subseteq> set s"
          using rmatch_split[of re "c # cs" ps r] Some m Cons by (metis set_append sup_ge2)
        ultimately show ?thesis using e assms[of ps] by auto
      next
        case False
        then have "re_sub re f s = c # re_sub re f cs" using Some m Cons by (simp add: re_sub_def)
        then show ?thesis using tl Cons by auto
      qed
    qed
  qed
qed

lemma tagless_collapse: "tagless s \<Longrightarrow> tagless (re_sub newlines_re (\<lambda>ps. [nl, nl]) s)"
proof (induction s rule: length_induct)
  case (1 s)
  let ?h = "re_sub newlines_re (\<lambda>ps. [nl, nl])"
  show ?case
  proof (cases s)
    case Nil
    then show ?thesis by (simp add: collapse_Nil)
  next
    case (Cons c cs)
    show ?thesis
    proof (cases "3 \<le> length (takeWhile (\<lambda>c. c = nl) (c # cs))")
      case True
      let ?r = "dropWhile (\<lambda>c. c = nl) (c # cs)"
      have e: "?h s = nl # nl # ?h ?r" using True Cons by (simp add: collapse_Cons)
      from True have "c = nl" by (auto split: if_splits)
      then have "length ?r < length s" using Cons length_dropWhile_le[of "\<lambda>c. c = nl" cs] by simp
      moreover have "tagless ?r"
        using "1.prems" Cons tagless_suffix[of "takeWhile (\<lambda>c. c = nl) (c # cs)" ?r]
        by (simp only: takeWhile_dropWhile_id)
      ultimately have "tagless (?h ?r)" using 1 by blast
      moreover have "\<not> tag_at (nl # x)" for x by (simp add: tag_at_iff nl_def)
      ultimately show ?thesis using e by simp
    next
      case False
      then have e: "?h s = c # ?h cs" using Cons by (simp add: collapse_Cons)
      from "1.prems" Cons have nt: "\<not> tag_at (c # cs)" and tcs: "tagless cs" by auto
      have t: "tagless (?h cs)" using 1 Cons tcs by simp
      have "\<not> tag_at (c # ?h cs)"
      proof
        assume "tag_at (c # ?h cs)"
        then obtain d u where c: "c = CHR ''<''" and h: "?h cs = d # u"
          and d: "d \<noteq> CHR ''>''" and u: "CHR ''>'' \<in> set u"
          by (auto simp: tag_at_iff)
        have "set (?h cs) \<subseteq> set cs \<union> {nl}" by (rule set_re_sub) simp
        with h u have gt: "CHR ''>'' \<in> set cs" by (auto simp: nl_def)
        then obtain e w where cs: "cs = e # w" by (cases cs) auto
        show False
        proof (cases "e = CHR ''>''")
          case True
          then have "?h cs = e # ?h w" using cs by (simp add: collapse_Cons nl_def)
          with h d True show False by simp
        next
          case False
          then have "CHR ''>'' \<in> set w" using gt cs by auto
          then have "tag_at (c # cs)" using c cs False by (simp add: tag_at_iff)
          with nt show False by simp
        qed
      qed
      then show ?thesis using e t by simp
    qed
  qed
qed


text \<open>
  After the newlines are collapsed no three of them stand in a row, so collapsing them
  again changes nothing; nor does trimming a trimmed text.
\<close>

lemma re_sub_absent:
  assumes "\<And>x ps r. rmatch re x = Some (ps, r) \<Longrightarrow> sublist w (concat ps)"
    and "\<not> sublist w s"
  shows "re_sub re f s = s"
proof -
  have "scan re (s @ []) = map Ch s @ scan re []"
  proof (rule scan_no_match)
    fix t assume t: "suffix t s" "t \<noteq> []"
    show "rmatch re (t @ []) = None"
    proof (cases "rmatch re t")
      case None
      then show ?thesis by simp
    next
      case (Some m)
      obtain ps r where m: "m = (ps, r)" by (cases m)
      from assms(1)[of t ps r] Some m have "sublist w (concat ps)" by simp
      moreover have "t = concat ps @ r" using Some m by (simp add: rmatch_split)
      ultimately have "sublist w t" by (metis sublist_appendI sublist_order.order_trans append_Nil)
      then have "sublist w s" using t(1) by (meson suffix_imp_sublist sublist_order.order_trans)
      with assms(2) show ?thesis by simp
    qed
  qed
  then show ?thesis by (simp add: re_sub_def comp_def)
qed

lemma collapse_absent:
  "\<not> sublist [nl, nl, nl] s \<Longrightarrow> re_sub newlines_re f s = s"
  using newlines_match by (intro re_sub_absent[where w = "[nl, nl, nl]"]) auto

lemma strip_with_idem: "strip_with P (strip_with P s) = strip_with P s"
proof -
  define t where "t = strip_with P s"
  have 1: "dropWhile P t = t"
    using strip_with_ends(1)[of P s] unfolding t_def[symmetric] by (cases t) auto
  have "dropWhile P (rev t) = rev t"
  proof (cases "rev t")
    case Nil
    then show ?thesis by simp
  next
    case (Cons c r)
    then have "t = rev r @ [c]" by (metis rev.simps(2) rev_rev_ident)
    then have "\<not> P c" using strip_with_ends(2)[of P s] unfolding t_def[symmetric] by auto
    then show ?thesis using Cons by simp
  qed
  with 1 show ?thesis unfolding t_def[symmetric] by (simp add: strip_with_def)
qed

lemma prefix_two: "prefix [nl, nl] x \<longleftrightarrow> 2 \<le> length (takeWhile (\<lambda>c. c = nl) x)"
  by (cases x; cases "tl x") (auto split: if_splits)

lemma no_triple_Cons:
  assumes "\<not> sublist [nl, nl, nl] t" "a = nl \<longrightarrow> length (takeWhile (\<lambda>c. c = nl) t) \<le> 1"
  shows "\<not> sublist [nl, nl, nl] (a # t)"
  using assms by (auto simp: sublist_Cons_right prefix_two)

lemma collapse_lead:
  "\<not> sublist [nl, nl, nl] (re_sub newlines_re (\<lambda>ps. [nl, nl]) s) \<and>
   length (takeWhile (\<lambda>c. c = nl) (re_sub newlines_re (\<lambda>ps. [nl, nl]) s)) \<le> 2 \<and>
   length (takeWhile (\<lambda>c. c = nl) (re_sub newlines_re (\<lambda>ps. [nl, nl]) s))
     \<le> length (takeWhile (\<lambda>c. c = nl) s)"
proof (induction s rule: length_induct)
  case (1 s)
  let ?h = "re_sub newlines_re (\<lambda>ps. [nl, nl])"
  let ?L = "\<lambda>x. length (takeWhile (\<lambda>c. c = nl) x)"
  show ?case
  proof (cases s)
    case Nil
    then show ?thesis by (simp add: collapse_Nil)
  next
    case (Cons c cs)
    show ?thesis
    proof (cases "3 \<le> ?L (c # cs)")
      case True
      define r where "r = dropWhile (\<lambda>c. c = nl) (c # cs)"
      define t where "t = ?h r"
      have e: "?h s = nl # nl # t" using True Cons by (simp add: collapse_Cons r_def t_def)
      from True have "c = nl" by (auto split: if_splits)
      then have "length r < length s"
        using Cons length_dropWhile_le[of "\<lambda>c. c = nl" cs] by (simp add: r_def)
      with 1 have ih: "\<not> sublist [nl, nl, nl] t" "?L t \<le> ?L r" unfolding t_def by blast+
      have "?L r = 0" using hd_dropWhile[of "\<lambda>c. c = nl" "c # cs"] unfolding r_def[symmetric]
        by (cases r) auto
      with ih(2) have z: "?L t = 0" by simp
      have a1: "\<not> sublist [nl, nl, nl] (nl # t)" by (rule no_triple_Cons[OF ih(1)]) (simp add: z)
      have a2: "\<not> sublist [nl, nl, nl] (nl # nl # t)" by (rule no_triple_Cons[OF a1]) (simp add: z)
      have "?L (nl # nl # t) = 2" using z by simp
      then show ?thesis using a2 True Cons unfolding e by simp
    next
      case False
      define t where "t = ?h cs"
      have e: "?h s = c # t" using False Cons by (simp add: collapse_Cons t_def)
      from 1 Cons have ih: "\<not> sublist [nl, nl, nl] t" "?L t \<le> 2" "?L t \<le> ?L cs"
        unfolding t_def by simp_all
      show ?thesis
      proof (cases "c = nl")
        case True
        with False have "?L cs \<le> 1" by simp
        with ih(3) have l: "?L t \<le> 1" by simp
        have "\<not> sublist [nl, nl, nl] (c # t)" by (rule no_triple_Cons[OF ih(1)]) (use l in simp)
        then show ?thesis using l ih(3) True Cons unfolding e by simp
      next
        case False
        have "\<not> sublist [nl, nl, nl] (c # t)" by (rule no_triple_Cons[OF ih(1)]) (simp add: False)
        then show ?thesis using False Cons unfolding e by simp
      qed
    qed
  qed
qed


lemma replace_absent:
  assumes "old \<noteq> []" "\<not> sublist old s"
  shows "str_replace old new s = s"
proof -
  have "replace_from old new s = s"
    using assms
  proof (induction old new s rule: replace_from.induct)
    case (1 old new)
    show ?case by simp
  next
    case (2 old new c cs)
    then have "\<not> prefix old (c # cs)" "\<not> sublist old cs"
      by (auto simp: sublist_Cons_right)
    then show ?case using 2 by simp
  qed
  then show ?thesis using assms(1) by (simp add: str_replace_def)
qed

lemma absent_by_char: "c \<in> set old \<Longrightarrow> c \<notin> set s \<Longrightarrow> \<not> sublist old s"
  using set_mono_sublist by blast

lemma cleanup_plain:
  assumes "CHR ''&'' \<notin> set s"
  shows "cleanup s = strip (re_sub newlines_re (\<lambda>ps. [nl, nl]) s)"
proof -
  define c where "c = re_sub newlines_re (\<lambda>ps. [nl, nl]) s"
  have "set c \<subseteq> set s \<union> {nl}" unfolding c_def by (rule set_re_sub) simp
  then have amp: "CHR ''&'' \<notin> set c" using assms by (auto simp: nl_def)
  have r: "str_replace old new c = c" if "CHR ''&'' \<in> set old" for old new
  proof (rule replace_absent)
    show "old \<noteq> []" using that by auto
    show "\<not> sublist old c" using that amp by (rule absent_by_char)
  qed
  show ?thesis unfolding cleanup_def Let_def c_def[symmetric] by (simp add: r)
qed


lemma tagless_pass:
  assumes "tagless r" "CHR ''&'' \<notin> set r" "\<not> sublist '']]>'' r" "\<not> sublist ''<![CDATA['' r"
  shows "html_to_markdown charrefs r = strip (re_sub newlines_re (\<lambda>ps. [nl, nl]) r)"
proof (cases "r = []")
  case True
  then show ?thesis by (simp add: html_to_markdown_def strip_def strip_with_def re_sub_def)
next
  case False
  have "remove_cdata r = r" using assms(3,4) by (simp add: remove_cdata_def replace_absent)
  then have "rewrite_text charrefs r = r"
    using assms(1,2) by (simp add: rewrite_text_def html_unescape_def
        block_rewrites_tagless inline_rewrites_tagless)
  moreover have "preserve_and_finish r = cleanup r"
    using assms(1) by (simp add: preserve_and_finish_def save_blocks_tagless tagless_fixed restore_def)
  ultimately show ?thesis using False assms(2) by (simp add: html_to_markdown_def cleanup_plain)
qed


text \<open>
  C4, as amended. When the first run leaves no \<open>&\<close> in the text after its rewrites,
  saves no iframe and no script element, and its result holds neither of the two CDATA
  markers, then its result holds no tag, and a second run returns it as it is.
\<close>

theorem second_run_changes_nothing:
  assumes "CHR ''&'' \<notin> set (rewrite_text charrefs s)"
    and "no_iframe (rewrite_text charrefs s)" "no_script (rewrite_text charrefs s)"
    and "\<not> sublist '']]>'' (html_to_markdown charrefs s)"
    and "\<not> sublist ''<![CDATA['' (html_to_markdown charrefs s)"
  shows "tagless (html_to_markdown charrefs s) \<and>
         html_to_markdown charrefs (html_to_markdown charrefs s) = html_to_markdown charrefs s"
proof (cases "s = []")
  case True
  then show ?thesis by (simp add: html_to_markdown_def)
next
  case False
  let ?h = "re_sub newlines_re (\<lambda>ps. [nl, nl])"
  define c where "c = rewrite_text charrefs s"
  define y where "y = strip_tags c"
  define r where "r = html_to_markdown charrefs s"
  have "preserve_and_finish c = cleanup y"
    using assms(2,3) unfolding c_def[symmetric] y_def
    by (simp add: preserve_and_finish_def no_iframe_def no_script_def restore_def)
  then have r1: "r = cleanup y" using False by (simp add: r_def html_to_markdown_def c_def)
  have ampy: "CHR ''&'' \<notin> set y"
    using assms(1) set_strip_tags[of c] unfolding c_def[symmetric] y_def by auto
  then have r2: "r = strip (?h y)" using r1 by (simp add: cleanup_plain)
  have ty: "tagless y" unfolding y_def by (rule tagless_strip_tags)
  then have tr: "tagless r" unfolding r2 strip_def by (intro tagless_strip_with tagless_collapse)
  have sub: "sublist r (?h y)" unfolding r2 strip_def by (rule strip_with_sublist)
  have "set (?h y) \<subseteq> set y \<union> {nl}" by (rule set_re_sub) simp
  then have "CHR ''&'' \<notin> set (?h y)" using ampy by (auto simp: nl_def)
  then have ampr: "CHR ''&'' \<notin> set r" using sub set_mono_sublist by blast
  have "\<not> sublist [nl, nl, nl] (?h y)" using collapse_lead[of y] by simp
  then have "\<not> sublist [nl, nl, nl] r" using sub sublist_order.order_trans by blast
  then have "?h r = r" by (rule collapse_absent)
  moreover have "strip r = r" unfolding r2 strip_def by (rule strip_with_idem)
  moreover have "html_to_markdown charrefs r = strip (?h r)"
    using tr ampr assms(4,5) unfolding r_def[symmetric] by (rule tagless_pass)
  ultimately show ?thesis using tr by (simp add: r_def)
qed

theorem second_run_changes_nothing_witness:
  "html_to_markdown id ''<h2>Hi</h2>\<newline>\<newline>\<newline>\<newline><p>you < me</p><br/>''
     = ''## Hi\<newline>\<newline>you < me'' \<and>
   html_to_markdown id
     (html_to_markdown id ''<h2>Hi</h2>\<newline>\<newline>\<newline>\<newline><p>you < me</p><br/>'')
     = ''## Hi\<newline>\<newline>you < me''"
proof -
  have 1: "rewrite_text id ''<h2>Hi</h2>\<newline>\<newline>\<newline>\<newline><p>you < me</p><br/>''
      = ''## Hi\<newline>\<newline>\<newline>\<newline>you < me\<newline>\<newline>\<newline>''"
    by code_simp
  have 2: "CHR ''&'' \<notin> set ''## Hi\<newline>\<newline>\<newline>\<newline>you < me\<newline>\<newline>\<newline>''"
    by simp
  have 3: "no_iframe ''## Hi\<newline>\<newline>\<newline>\<newline>you < me\<newline>\<newline>\<newline>''"
    by code_simp
  have 4: "no_script ''## Hi\<newline>\<newline>\<newline>\<newline>you < me\<newline>\<newline>\<newline>''"
    by code_simp
  have 5: "html_to_markdown id ''<h2>Hi</h2>\<newline>\<newline>\<newline>\<newline><p>you < me</p><br/>''
     = ''## Hi\<newline>\<newline>you < me''"
    by code_simp
  have 6: "\<not> sublist '']]>'' ''## Hi\<newline>\<newline>you < me''"
    "\<not> sublist ''<![CDATA['' ''## Hi\<newline>\<newline>you < me''"
    by code_simp+
  show ?thesis
    using second_run_changes_nothing[of id
        "''<h2>Hi</h2>\<newline>\<newline>\<newline>\<newline><p>you < me</p><br/>''"]
      1 2 3 4 5 6 by simp
qed

text \<open>
  C4, as stated, fails. The CDATA markers are removed one kind after the other at the
  start of every run: from \<open>]]]>]>\<close> the first run makes \<open>]]>\<close>, and from \<open><![CDA]]>TA[\<close>
  it makes \<open><![CDATA[\<close>; the second run removes both entirely. A saved element goes
  through the rewrites again: the link rule of the first run leaves a heading inside the
  iframe element below, and inside the script element after it, which the second run
  rewrites. And the cleanup of the first run decodes \<open>&lt;\<close> and \<open>&gt;\<close> after the tags
  are stripped, so that its result holds a tag, which the second run strips.
\<close>

theorem second_pass_removes_characters:
  "html_to_markdown id '']]]>]>'' = '']]>'' \<and>
   html_to_markdown id (html_to_markdown id '']]]>]>'') = [] \<and>
   html_to_markdown id ''<![CDA]]>TA['' = ''<![CDATA['' \<and>
   html_to_markdown id (html_to_markdown id ''<![CDA]]>TA['') = [] \<and>
   html_to_markdown id ''<iframe><a href=\"</h1>\"><h1></a></iframe>''
     = ''<iframe>[<h1>](</h1>)</iframe>'' \<and>
   html_to_markdown id (html_to_markdown id ''<iframe><a href=\"</h1>\"><h1></a></iframe>'')
     = ''<iframe>[# ]()</iframe>'' \<and>
   html_to_markdown id ''<script><a href=\"</h1>\"><h1></a></script>''
     = ''<script>[<h1>](</h1>)</script>'' \<and>
   html_to_markdown id (html_to_markdown id ''<script><a href=\"</h1>\"><h1></a></script>'')
     = ''<script>[# ]()</script>'' \<and>
   html_to_markdown amp_only ''&amp;lt;b&amp;gt;x'' = ''<b>x'' \<and>
   html_to_markdown amp_only (html_to_markdown amp_only ''&amp;lt;b&amp;gt;x'') = ''x''"
proof -
  have 1: "html_to_markdown id '']]]>]>'' = '']]>''" by code_simp
  have 2: "html_to_markdown id '']]>'' = []" by code_simp
  have 3: "html_to_markdown id ''<![CDA]]>TA['' = ''<![CDATA[''" by code_simp
  have 4: "html_to_markdown id ''<![CDATA['' = []" by code_simp
  have 5: "html_to_markdown id ''<iframe><a href=\"</h1>\"><h1></a></iframe>''
     = ''<iframe>[<h1>](</h1>)</iframe>''" by code_simp
  have 6: "html_to_markdown id ''<iframe>[<h1>](</h1>)</iframe>'' = ''<iframe>[# ]()</iframe>''"
    by code_simp
  have 7: "html_to_markdown amp_only ''&amp;lt;b&amp;gt;x'' = ''<b>x''" by code_simp
  have 8: "html_to_markdown amp_only ''<b>x'' = ''x''" by code_simp
  have 9: "html_to_markdown id ''<script><a href=\"</h1>\"><h1></a></script>''
     = ''<script>[<h1>](</h1>)</script>''" by code_simp
  have 10: "html_to_markdown id ''<script>[<h1>](</h1>)</script>'' = ''<script>[# ]()</script>''"
    by code_simp
  show ?thesis using 1 2 3 4 5 6 7 8 9 10 by simp
qed

end
